theory Spec2Isabelle
  imports Main "HOL-Library.Char_ord" "HOL-Library.List_Lexorder" "HOL-Library.Multiset"
begin

section \<open>Python values, text and bytes\<close>

text \<open>
  The module \<^verbatim>\<open>snakemake/caching/hash.py\<close> works on Python \<^verbatim>\<open>str\<close> and \<^verbatim>\<open>bytes\<close>.
  A \<^verbatim>\<open>str\<close> is modelled as a \<^typ>\<open>string\<close> whose characters are the code points below 256,
  a \<^verbatim>\<open>bytes\<close> object as a \<^typ>\<open>string\<close> whose characters are the bytes. The order on
  \<^typ>\<open>string\<close> is the lexicographic order on code points, which is the order Python's
  \<^verbatim>\<open>sorted\<close> uses on \<^verbatim>\<open>str\<close>.
\<close>

type_synonym bytes = string

text \<open>\<^verbatim>\<open>str.encode()\<close>: UTF-8, one byte below 128 and two bytes from 128 to 255.\<close>

definition utf8 :: "char \<Rightarrow> bytes" where
  "utf8 c = (let n = (of_char c :: nat) in
     if n < 128 then [c] else [char_of (192 + n div 64), char_of (128 + n mod 64)])"

definition encode :: "string \<Rightarrow> bytes" where
  "encode s = concat (map utf8 s)"

text \<open>
  The exceptions the module can let escape. \<^verbatim>\<open>WorkflowError\<close> carries its message.
  \<^verbatim>\<open>SourceError\<close> stands for whatever the source resolver of a script or wrapper raises.
\<close>

datatype error =
    WorkflowError string
  | TypeError
  | ValueError
  | FileNotFoundError
  | UnsupportedOperation
  | SourceError

text \<open>
  Parameter values: the JSON-shaped Python values, and \<open>PObject\<close> for any object that
  \<^verbatim>\<open>json.dumps\<close> has no encoding for. Dictionaries are association lists in iteration order;
  their keys are \<^verbatim>\<open>str\<close>. Floating-point numbers are left out.
\<close>

datatype pyval =
    PNone
  | PBool bool
  | PInt int
  | PStr string
  | PList "pyval list"
  | PDict "(string \<times> pyval) list"
  | PObject

subsection \<open>\<^verbatim>\<open>json.dumps(value, sort_keys=True)\<close>\<close>

definition hex_digit :: "nat \<Rightarrow> char" where
  "hex_digit n = ''0123456789abcdef'' ! (n mod 16)"

text \<open>
  The escapes of \<^verbatim>\<open>json.encoder.py_encode_basestring_ascii\<close>: backslash, double quote,
  the five named control characters, and \<^verbatim>\<open>\u00XX\<close> for everything outside space to tilde.
\<close>

definition escape_char :: "char \<Rightarrow> string" where
  "escape_char c = (let n = (of_char c :: nat) in
     if n = 92 then [CHR 0x5C, CHR 0x5C]
     else if n = 34 then [CHR 0x5C, CHR 0x22]
     else if n = 8 then [CHR 0x5C, CHR ''b'']
     else if n = 12 then [CHR 0x5C, CHR ''f'']
     else if n = 10 then [CHR 0x5C, CHR ''n'']
     else if n = 13 then [CHR 0x5C, CHR ''r'']
     else if n = 9 then [CHR 0x5C, CHR ''t'']
     else if 32 \<le> n \<and> n \<le> 126 then [c]
     else [CHR 0x5C, CHR ''u'', CHR ''0'', CHR ''0'', hex_digit (n div 16), hex_digit n])"

definition json_string :: "string \<Rightarrow> string" where
  "json_string s = [CHR 0x22] @ concat (map escape_char s) @ [CHR 0x22]"

fun digits :: "nat \<Rightarrow> string" where
  "digits n = (if n < 10 then [char_of (48 + n)]
               else digits (n div 10) @ [char_of (48 + n mod 10)])"

definition str_int :: "int \<Rightarrow> string" where
  "str_int i = (if i < 0 then CHR ''-'' # digits (nat (- i)) else digits (nat i))"

text \<open>\<^verbatim>\<open>sep.join(parts)\<close>\<close>

fun join :: "string \<Rightarrow> string list \<Rightarrow> string" where
  "join sep [] = []"
| "join sep [x] = x"
| "join sep (x # y # ys) = x @ sep @ join sep (y # ys)"

text \<open>Evaluating a list of fallible results from left to right: the first exception escapes.\<close>

fun sequence :: "('e + 'a) list \<Rightarrow> 'e + 'a list" where
  "sequence [] = Inr []"
| "sequence (x # xs) =
     (case x of
        Inl e \<Rightarrow> Inl e
      | Inr v \<Rightarrow> (case sequence xs of Inl e \<Rightarrow> Inl e | Inr vs \<Rightarrow> Inr (v # vs)))"

text \<open>
  \<^verbatim>\<open>sorted(items)\<close> on a list of \<^verbatim>\<open>(key, value)\<close> tuples: Python compares the keys and looks at
  the values only where two keys are equal, which the items of a mapping never are.
  \<^verbatim>\<open>sorted\<close> is stable, as \<^const>\<open>sort_key\<close> is.
\<close>

definition sorted_items :: "(string \<times> 'v) list \<Rightarrow> (string \<times> 'v) list" where
  "sorted_items kvs = sort_key fst kvs"

function dumps :: "pyval \<Rightarrow> error + string" where
  "dumps PNone = Inr ''null''"
| "dumps (PBool b) = Inr (if b then ''true'' else ''false'')"
| "dumps (PInt i) = Inr (str_int i)"
| "dumps (PStr s) = Inr (json_string s)"
| "dumps (PList vs) =
     (case sequence (map dumps vs) of
        Inl e \<Rightarrow> Inl e
      | Inr ss \<Rightarrow> Inr (''['' @ join '', '' ss @ '']''))"
| "dumps (PDict kvs) =
     (case sequence (map (\<lambda>kv. case dumps (snd kv) of
                                  Inl e \<Rightarrow> Inl e
                                | Inr s \<Rightarrow> Inr (json_string (fst kv) @ '': '' @ s))
                         (sorted_items kvs)) of
        Inl e \<Rightarrow> Inl e
      | Inr ss \<Rightarrow> Inr (''{'' @ join '', '' ss @ ''}''))"
| "dumps PObject = Inl TypeError"
  by pat_completeness auto
termination
proof (relation "measure size")
  show "wf (measure (size :: pyval \<Rightarrow> nat))" by simp
next
  fix vs :: "pyval list" and x
  assume "x \<in> set vs"
  then show "(x, PList vs) \<in> measure size"
    by (induction vs) auto
next
  fix kvs :: "(string \<times> pyval) list" and x
  assume "x \<in> set (sorted_items kvs)"
  then have "x \<in> set kvs" by (simp add: sorted_items_def)
  then show "(snd x, PDict kvs) \<in> measure size"
    by (induction kvs) auto
qed

section \<open>Jobs, the task graph and the outside world\<close>

text \<open>
  The fields of \<^verbatim>\<open>Job\<close>, \<^verbatim>\<open>Rule\<close>, the conda environment, \<^verbatim>\<open>Workflow\<close> and \<^verbatim>\<open>DAG\<close> that the
  module reads. An attribute that may be \<^verbatim>\<open>None\<close> is an option. \<^verbatim>\<open>job.params._allitems()\<close>
  is the list of the \<^verbatim>\<open>(key, value)\<close> pairs of the parameter mapping in its iteration order;
  \<^verbatim>\<open>job.output\<close> and \<^verbatim>\<open>job.input\<close> are the fields \<open>job_output\<close> and \<open>job_input\<close>.
\<close>

record conda_env =
  env_singularity_img_url :: "string option"
  content :: string

record rule =
  name :: string
  shellcmd :: string
  script :: string
  wrapper :: string

record job =
  rule :: rule
  job_output :: "string list"
  job_input :: "string list"
  params :: "(string \<times> pyval) list"
  is_shell :: bool
  is_script :: bool
  is_wrapper :: bool
  conda_env :: "conda_env option"
  singularity_img_url :: "string option"

record workflow =
  use_conda :: bool
  use_singularity :: bool
  wrapper_prefix :: string

text \<open>
  Jobs are identified by a number (the identity of the \<^verbatim>\<open>Job\<close> object, the key of the
  dictionaries). \<^verbatim>\<open>dag.dependencies[job]\<close> maps each upstream job to the files it supplies;
  it is an association list in the order in which \<^verbatim>\<open>set(dependencies[job].keys())\<close> is
  iterated, and \<^verbatim>\<open>dependencies\<close> is a \<^verbatim>\<open>defaultdict\<close>, so the lookup is total.
\<close>

type_synonym job_id = nat

record dag =
  workflow :: workflow
  jobs :: "job_id \<Rightarrow> job"
  dependencies :: "job_id \<Rightarrow> (job_id \<times> string list) list"

text \<open>
  What the module reaches outside itself: the file system, \<^verbatim>\<open>script.get_source\<close> (of whose
  result only the source text is used), \<^verbatim>\<open>wrapper.get_script\<close>, and \<^verbatim>\<open>hashlib.sha256\<close> as
  the function from all the bytes fed to the hex digest. The names \<^verbatim>\<open>script\<close>, \<^verbatim>\<open>wrapper\<close>
  and \<^verbatim>\<open>WorkflowError\<close> are taken as bound to the package's modules of these names.
\<close>

type_synonym filesystem = "string \<Rightarrow> bytes option"

record world =
  files :: filesystem
  get_source :: "string \<Rightarrow> error + string"
  get_script :: "string \<Rightarrow> string \<Rightarrow> string"
  sha256 :: "bytes \<Rightarrow> string"

section \<open>The steps of \<^verbatim>\<open>_get_provenance_hash\<close>\<close>

text \<open>
  A \<^verbatim>\<open>hashlib\<close> object is modelled by the bytes fed to it so far: \<^verbatim>\<open>h.update(b)\<close> appends,
  \<^verbatim>\<open>h.hexdigest()\<close> applies \<^const>\<open>sha256\<close>.
\<close>

text \<open>Lines 51 to 63: the shell command, the script or the wrapper.\<close>

definition hash_exec :: "world \<Rightarrow> workflow \<Rightarrow> job \<Rightarrow> bytes \<Rightarrow> error + bytes" where
  "hash_exec W wfl j h =
     (if is_shell j then Inr (h @ encode (shellcmd (rule j)))
      else if is_script j then
        (case get_source W (script (rule j)) of
           Inl e \<Rightarrow> Inl e
         | Inr source \<Rightarrow> Inr (h @ encode source))
      else if is_wrapper j then
        (case get_source W (get_script W (wrapper (rule j)) (wrapper_prefix wfl)) of
           Inl e \<Rightarrow> Inl e
         | Inr source \<Rightarrow> Inr (h @ encode source))
      else Inr h)"

text \<open>Lines 65 to 69: the parameters, in the order of \<^verbatim>\<open>sorted\<close>.\<close>

fun hash_items :: "(string \<times> pyval) list \<Rightarrow> bytes \<Rightarrow> error + bytes" where
  "hash_items [] h = Inr h"
| "hash_items ((key, val) # rest) h =
     (case dumps val of
        Inl e \<Rightarrow> Inl e
      | Inr s \<Rightarrow> hash_items rest (h @ encode key @ encode s))"

definition hash_params :: "(string \<times> pyval) list \<Rightarrow> bytes \<Rightarrow> error + bytes" where
  "hash_params ps h = hash_items (sorted_items ps) h"

text \<open>
  Lines 71 to 79: the input files. \<^verbatim>\<open>open(file, mode)\<close> rejects a mode without exactly one of
  \<^verbatim>\<open>r\<close>, \<^verbatim>\<open>w\<close>, \<^verbatim>\<open>a\<close>, \<^verbatim>\<open>x\<close> with \<^verbatim>\<open>ValueError\<close> before it looks at the file. Of the
  accepted modes only the binary reading ones are modelled; the others give
  \<^const>\<open>UnsupportedOperation\<close>.
\<close>

definition py_open :: "filesystem \<Rightarrow> string \<Rightarrow> string \<Rightarrow> error + bytes" where
  "py_open fs path mode =
     (if length (filter (\<lambda>c. c \<in> set ''rwax'') mode) \<noteq> 1 then Inl ValueError
      else if CHR ''r'' \<in> set mode \<and> CHR ''b'' \<in> set mode then
        (case fs path of None \<Rightarrow> Inl FileNotFoundError | Some data \<Rightarrow> Inr data)
      else Inl UnsupportedOperation)"

text \<open>\<^verbatim>\<open>iter(lambda: f.read(n), b"")\<close>: the successive blocks, up to the first empty one.\<close>

function read_blocks :: "nat \<Rightarrow> bytes \<Rightarrow> bytes list" where
  "read_blocks n bs =
     (if n = 0 \<or> bs = [] then [] else take n bs # read_blocks n (drop n bs))"
  by pat_completeness auto
termination
  by (relation "measure (\<lambda>(n, bs). length bs)") auto

declare read_blocks.simps [simp del]

definition hash_blocks :: "bytes \<Rightarrow> bytes \<Rightarrow> bytes" where
  "hash_blocks data h = foldl (\<lambda>h byte_block. h @ byte_block) h (read_blocks 4096 data)"

text \<open>\<^verbatim>\<open>any(f in depfiles for depfiles in job.dag.dependencies[job].values())\<close>\<close>

definition supplied_upstream :: "(job_id \<times> string list) list \<Rightarrow> string \<Rightarrow> bool" where
  "supplied_upstream deps f = list_ex (\<lambda>depfiles. f \<in> set depfiles) (map snd deps)"

fun hash_input_files ::
  "string \<Rightarrow> filesystem \<Rightarrow> (job_id \<times> string list) list \<Rightarrow> string list \<Rightarrow> bytes \<Rightarrow> error + bytes"
where
  "hash_input_files mode fs deps [] h = Inr h"
| "hash_input_files mode fs deps (f # rest) h =
     (if \<not> supplied_upstream deps f then
        (case py_open fs f mode of
           Inl e \<Rightarrow> Inl e
         | Inr data \<Rightarrow> hash_input_files mode fs deps rest (hash_blocks data h))
      else hash_input_files mode fs deps rest h)"

text \<open>Lines 81 to 87: containers and conda environments. A \<^verbatim>\<open>str\<close> is true when not empty.\<close>

definition hash_container :: "workflow \<Rightarrow> job \<Rightarrow> bytes \<Rightarrow> bytes" where
  "hash_container wfl j h =
     (case singularity_img_url j of
        Some url \<Rightarrow> if use_singularity wfl \<and> url \<noteq> [] then h @ encode url else h
      | None \<Rightarrow> h)"

definition hash_environment :: "workflow \<Rightarrow> job \<Rightarrow> bytes \<Rightarrow> bytes" where
  "hash_environment wfl j h =
     (case conda_env j of
        Some env \<Rightarrow>
          if use_conda wfl then
            (case env_singularity_img_url env of
               Some url \<Rightarrow>
                 if use_singularity wfl \<and> url \<noteq> []
                 then h @ encode url @ encode (content env)
                 else h @ encode (content env)
             | None \<Rightarrow> h @ encode (content env))
          else hash_container wfl j h
      | None \<Rightarrow> hash_container wfl j h)"

text \<open>
  Lines 89 to 94: the upstream jobs. \<^verbatim>\<open>set(keys)\<close> visits each key once; the generator
  calls the recursion for one upstream job after the other, threading the memo map, and the
  first exception ends it. \<^verbatim>\<open>sorted\<close> then orders the digests, and each is fed.
\<close>

type_synonym memo = "job_id \<rightharpoonup> string"

fun dep_hashes ::
  "(memo \<Rightarrow> job_id \<Rightarrow> ((error + string) \<times> memo) option) \<Rightarrow> memo \<Rightarrow> job_id list
     \<Rightarrow> ((error + string list) \<times> memo) option"
where
  "dep_hashes rec m [] = Some (Inr [], m)"
| "dep_hashes rec m (dep # deps) =
     (case rec m dep of
        None \<Rightarrow> None
      | Some (Inl e, m1) \<Rightarrow> Some (Inl e, m1)
      | Some (Inr d, m1) \<Rightarrow>
          (case dep_hashes rec m1 deps of
             None \<Rightarrow> None
           | Some (Inl e, m2) \<Rightarrow> Some (Inl e, m2)
           | Some (Inr ds, m2) \<Rightarrow> Some (Inr (d # ds), m2)))"

definition upstream_jobs :: "dag \<Rightarrow> job_id \<Rightarrow> job_id list" where
  "upstream_jobs G job = remdups (map fst (dependencies G job))"

definition feed_sorted :: "string list \<Rightarrow> bytes \<Rightarrow> bytes" where
  "feed_sorted ds h = foldl (\<lambda>h dep_hash. h @ encode dep_hash) h (sort ds)"

section \<open>The engine\<close>

text \<open>
  \<^verbatim>\<open>ProvenanceHashMap.__init__\<close> starts with an empty dictionary. The recursion of
  \<^verbatim>\<open>_get_provenance_hash\<close> has no guard against a cyclic graph: the first argument bounds
  the depth of the recursion, and \<open>None\<close> is a recursion that did not come back within it.
  Otherwise the result is the digest or the exception, with the memo map as the call left it.
\<close>

definition new_engine :: memo where
  "new_engine = Map.empty"

definition multi_output_message :: "job \<Rightarrow> string" where
  "multi_output_message j =
     ''Cannot generate hash for rule '' @ name (rule j) @ '': it has more than one output file.''"

fun priv_get_provenance_hash ::
  "nat \<Rightarrow> world \<Rightarrow> dag \<Rightarrow> memo \<Rightarrow> job_id \<Rightarrow> ((error + string) \<times> memo) option"
where
  "priv_get_provenance_hash 0 W G m job = None"
| "priv_get_provenance_hash (Suc fuel) W G m job =
     (case m job of
        Some d \<Rightarrow> Some (Inr d, m)
      | None \<Rightarrow>
          if length (job_output (jobs G job)) > 1
          then Some (Inl (WorkflowError (multi_output_message (jobs G job))), m)
          else
            (case hash_exec W (workflow G) (jobs G job) [] of
               Inl e \<Rightarrow> Some (Inl e, m)
             | Inr h1 \<Rightarrow>
            (case hash_params (params (jobs G job)) h1 of
               Inl e \<Rightarrow> Some (Inl e, m)
             | Inr h2 \<Rightarrow>
            (case hash_input_files ''b'' (files W) (dependencies G job) (job_input (jobs G job)) h2 of
               Inl e \<Rightarrow> Some (Inl e, m)
             | Inr h3 \<Rightarrow>
            (case dep_hashes (priv_get_provenance_hash fuel W G) m (upstream_jobs G job) of
               None \<Rightarrow> None
             | Some (Inl e, m') \<Rightarrow> Some (Inl e, m')
             | Some (Inr ds, m') \<Rightarrow>
                 (let provenance_hash =
                        sha256 W (feed_sorted ds (hash_environment (workflow G) (jobs G job) h3))
                  in Some (Inr provenance_hash, m'(job \<mapsto> provenance_hash))))))))"

text \<open>
  \<^verbatim>\<open>get_provenance_hash\<close>, with the module's \<^verbatim>\<open>__version__\<close> as an argument, and at the
  value the module gives it.
\<close>

definition get_provenance_hash_with ::
  "string \<Rightarrow> nat \<Rightarrow> world \<Rightarrow> dag \<Rightarrow> memo \<Rightarrow> job_id \<Rightarrow> ((error + string) \<times> memo) option"
where
  "get_provenance_hash_with version fuel W G m job =
     (case priv_get_provenance_hash fuel W G m job of
        None \<Rightarrow> None
      | Some (Inl e, m') \<Rightarrow> Some (Inl e, m')
      | Some (Inr d, m') \<Rightarrow> Some (Inr (sha256 W (encode d @ encode version)), m'))"

definition module_version :: string where
  "module_version = ''0.1''"

definition get_provenance_hash ::
  "nat \<Rightarrow> world \<Rightarrow> dag \<Rightarrow> memo \<Rightarrow> job_id \<Rightarrow> ((error + string) \<times> memo) option"
where
  "get_provenance_hash = get_provenance_hash_with module_version"

section \<open>The digest as a function of the graph\<close>

text \<open>
  The bytes a job feeds for itself, before the digests of its upstream jobs: the steps of
  lines 41 to 87 in their order, from an empty \<^verbatim>\<open>hashlib.sha256()\<close>.
\<close>

definition own_bytes :: "world \<Rightarrow> dag \<Rightarrow> job_id \<Rightarrow> error + bytes" where
  "own_bytes W G job =
     (if length (job_output (jobs G job)) > 1
      then Inl (WorkflowError (multi_output_message (jobs G job)))
      else
        (case hash_exec W (workflow G) (jobs G job) [] of
           Inl e \<Rightarrow> Inl e
         | Inr h1 \<Rightarrow>
        (case hash_params (params (jobs G job)) h1 of
           Inl e \<Rightarrow> Inl e
         | Inr h2 \<Rightarrow>
        (case hash_input_files ''b'' (files W) (dependencies G job) (job_input (jobs G job)) h2 of
           Inl e \<Rightarrow> Inl e
         | Inr h3 \<Rightarrow> Inr (hash_environment (workflow G) (jobs G job) h3)))))"

text \<open>
  The same recursion without the memo map: what an engine that remembers nothing computes.
  It is the reference the memo map is measured against.
\<close>

fun dep_digests ::
  "(job_id \<Rightarrow> (error + string) option) \<Rightarrow> job_id list \<Rightarrow> (error + string list) option"
where
  "dep_digests rec [] = Some (Inr [])"
| "dep_digests rec (dep # deps) =
     (case rec dep of
        None \<Rightarrow> None
      | Some (Inl e) \<Rightarrow> Some (Inl e)
      | Some (Inr d) \<Rightarrow>
          (case dep_digests rec deps of
             None \<Rightarrow> None
           | Some (Inl e) \<Rightarrow> Some (Inl e)
           | Some (Inr ds) \<Rightarrow> Some (Inr (d # ds))))"

fun digest_of :: "nat \<Rightarrow> world \<Rightarrow> dag \<Rightarrow> job_id \<Rightarrow> (error + string) option" where
  "digest_of 0 W G job = None"
| "digest_of (Suc fuel) W G job =
     (case own_bytes W G job of
        Inl e \<Rightarrow> Some (Inl e)
      | Inr h \<Rightarrow>
          (case dep_digests (digest_of fuel W G) (upstream_jobs G job) of
             None \<Rightarrow> None
           | Some (Inl e) \<Rightarrow> Some (Inl e)
           | Some (Inr ds) \<Rightarrow> Some (Inr (sha256 W (feed_sorted ds h)))))"

text \<open>A memo map is consistent when each entry is the digest of its job.\<close>

definition consistent :: "world \<Rightarrow> dag \<Rightarrow> memo \<Rightarrow> bool" where
  "consistent W G m \<longleftrightarrow>
     (\<forall>job d. m job = Some d \<longrightarrow> (\<exists>fuel. digest_of fuel W G job = Some (Inr d)))"

text \<open>
  The memo maps an engine can hold: the empty one of a new engine, and the one any call
  leaves behind, whether it returned a digest or raised.
\<close>

inductive reachable :: "world \<Rightarrow> dag \<Rightarrow> memo \<Rightarrow> bool" for W G where
  fresh: "reachable W G new_engine"
| call: "reachable W G m \<Longrightarrow> priv_get_provenance_hash fuel W G m job = Some (r, m')
           \<Longrightarrow> reachable W G m'"

text \<open>
  Two graphs that differ only in the iteration order of each job's parameter mapping and of
  each job's dependency mapping. The keys of a parameter mapping are distinct.
\<close>

definition same_up_to_order :: "dag \<Rightarrow> dag \<Rightarrow> bool" where
  "same_up_to_order G G' \<longleftrightarrow>
     workflow G' = workflow G \<and>
     (\<forall>job. jobs G' job = (jobs G job)\<lparr>params := params (jobs G' job)\<rparr> \<and>
            mset (params (jobs G' job)) = mset (params (jobs G job)) \<and>
            distinct (map fst (params (jobs G job))) \<and>
            mset (dependencies G' job) = mset (dependencies G job))"

section \<open>An example: the diamond graph\<close>

text \<open>
  Job 0 has no upstream job; jobs 1 and 2 read its output; job 3 reads the outputs of 1
  and 2. Job 4 declares two outputs, job 5 reads a file no job supplies, job 6 has a
  parameter that is an arbitrary object. The digest function of the example world wraps
  the bytes fed in brackets, so that it has no collisions.
\<close>

definition shell_job ::
  "string \<Rightarrow> string \<Rightarrow> string list \<Rightarrow> string list \<Rightarrow> (string \<times> pyval) list \<Rightarrow> job"
where
  "shell_job n cmd outs ins ps =
     \<lparr>rule = \<lparr>name = n, shellcmd = cmd, script = [], wrapper = []\<rparr>,
      job_output = outs, job_input = ins, params = ps,
      is_shell = True, is_script = False, is_wrapper = False,
      conda_env = None, singularity_img_url = None\<rparr>"

definition ex_world :: world where
  "ex_world =
     \<lparr>files = [''data.txt'' \<mapsto> ''abc''],
      get_source = (\<lambda>p. if p = ''plot.py'' then Inr ''print(1)'' else Inl SourceError),
      get_script = (\<lambda>p prefix. prefix @ p),
      sha256 = (\<lambda>bs. ''<'' @ bs @ ''>'')\<rparr>"

definition ex_params :: "(string \<times> pyval) list" where
  "ex_params = [(''k'', PNone), (''b'', PBool True)]"

definition ex_jobs :: "(string \<times> pyval) list \<Rightarrow> job_id \<Rightarrow> job" where
  "ex_jobs ps i =
     (if i = 0 then shell_job ''a'' ''echo hi'' [''a.txt''] [] []
      else if i = 1 then
        (shell_job ''b'' ''sort'' [''b.txt''] [''a.txt''] [])
          \<lparr>conda_env := Some \<lparr>env_singularity_img_url = Some ''docker://img'',
                                content = ''deps''\<rparr>\<rparr>
      else if i = 2 then
        (shell_job ''c'' [] [''c.txt''] [''a.txt''] [])
          \<lparr>is_shell := False, is_script := True,
           rule := \<lparr>name = ''c'', shellcmd = [], script = ''plot.py'', wrapper = []\<rparr>\<rparr>
      else if i = 3 then shell_job ''d'' ''join'' [''d.txt''] [''b.txt'', ''c.txt''] ps
      else if i = 4 then shell_job ''m'' ''split'' [''m1.txt'', ''m2.txt''] [] []
      else if i = 5 then shell_job ''x'' ''wc'' [''x.txt''] [''data.txt''] []
      else shell_job ''u'' ''true'' [''u.txt''] [] [(''p'', PList [PInt 1, PObject])])"

definition ex_deps :: "(job_id \<times> string list) list \<Rightarrow> job_id \<Rightarrow> (job_id \<times> string list) list" where
  "ex_deps ds i =
     (if i = 1 then [(0, [''a.txt''])]
      else if i = 2 then [(0, [''a.txt''])]
      else if i = 3 then ds
      else [])"

definition ex_workflow :: workflow where
  "ex_workflow = \<lparr>use_conda = True, use_singularity = True, wrapper_prefix = ''w/''\<rparr>"

definition ex_dag :: dag where
  "ex_dag = \<lparr>workflow = ex_workflow, jobs = ex_jobs ex_params,
             dependencies = ex_deps [(1, [''b.txt'']), (2, [''c.txt''])]\<rparr>"

definition ex_dag_reordered :: dag where
  "ex_dag_reordered = \<lparr>workflow = ex_workflow, jobs = ex_jobs (rev ex_params),
                       dependencies = ex_deps [(2, [''c.txt'']), (1, [''b.txt''])]\<rparr>"

section \<open>The recursion and the memo map\<close>

text \<open>
  The body of \<^const>\<open>priv_get_provenance_hash\<close> with the steps before the recursion folded
  into \<^const>\<open>own_bytes\<close>.
\<close>

lemma priv_Suc:
  "priv_get_provenance_hash (Suc fuel) W G m job =
     (case m job of
        Some d \<Rightarrow> Some (Inr d, m)
      | None \<Rightarrow>
          (case own_bytes W G job of
             Inl e \<Rightarrow> Some (Inl e, m)
           | Inr h \<Rightarrow>
               (case dep_hashes (priv_get_provenance_hash fuel W G) m (upstream_jobs G job) of
                  None \<Rightarrow> None
                | Some (Inl e, m') \<Rightarrow> Some (Inl e, m')
                | Some (Inr ds, m') \<Rightarrow>
                    Some (Inr (sha256 W (feed_sorted ds h)),
                          m'(job \<mapsto> sha256 W (feed_sorted ds h))))))"
  by (simp add: own_bytes_def Let_def split: option.split sum.split)

declare priv_get_provenance_hash.simps(2) [simp del]

lemma dep_digests_mono:
  assumes "\<And>d r. d \<in> set ds \<Longrightarrow> f d = Some r \<Longrightarrow> g d = Some r"
    and "dep_digests f ds = Some R"
  shows "dep_digests g ds = Some R"
  using assms
proof (induction ds arbitrary: R)
  case Nil
  then show ?case by simp
next
  case (Cons d ds)
  from Cons.prems(2) obtain r where r: "f d = Some r"
    by (auto split: option.splits)
  then have g: "g d = Some r" using Cons.prems(1) by simp
  show ?case
  proof (cases r)
    case (Inl e)
    with r g Cons.prems(2) show ?thesis by simp
  next
    case (Inr x)
    with r Cons.prems(2) obtain R' where R': "dep_digests f ds = Some R'"
      by (auto split: option.splits)
    have "dep_digests g ds = Some R'"
      using Cons.IH[OF _ R'] Cons.prems(1) by simp
    with R' r g Inr Cons.prems(2) show ?thesis by simp
  qed
qed

lemma digest_of_Suc_mono:
  "digest_of n W G job = Some r \<Longrightarrow> digest_of (Suc n) W G job = Some r"
proof (induction n arbitrary: job r)
  case 0
  then show ?case by simp
next
  case (Suc n)
  show ?case
  proof (cases "own_bytes W G job")
    case (Inl e)
    with Suc.prems have "r = Inl e" by simp
    with Inl show ?thesis by simp
  next
    case (Inr h)
    with Suc.prems obtain R where R: "dep_digests (digest_of n W G) (upstream_jobs G job) = Some R"
      by (auto split: option.splits)
    have "dep_digests (digest_of (Suc n) W G) (upstream_jobs G job) = Some R"
      by (rule dep_digests_mono[OF _ R]) (rule Suc.IH)
    with R Inr Suc.prems show ?thesis
      by (simp del: digest_of.simps add: digest_of.simps(2)[of "Suc n"] digest_of.simps(2)[of n])
  qed
qed

lemma digest_of_mono:
  "digest_of n W G job = Some r \<Longrightarrow> n \<le> n' \<Longrightarrow> digest_of n' W G job = Some r"
proof (induction n')
  case 0
  then show ?case by simp
next
  case (Suc n')
  show ?case
  proof (cases "n = Suc n'")
    case True
    with Suc.prems show ?thesis by simp
  next
    case False
    with Suc.prems have "n \<le> n'" by simp
    then have "digest_of n' W G job = Some r" using Suc.IH Suc.prems(1) by simp
    then show ?thesis by (rule digest_of_Suc_mono)
  qed
qed

lemma digest_of_unique:
  assumes "digest_of a W G job = Some r" and "digest_of b W G job = Some r'"
  shows "r = r'"
proof -
  have "digest_of (max a b) W G job = Some r" using assms(1) by (rule digest_of_mono) simp
  moreover have "digest_of (max a b) W G job = Some r'" using assms(2) by (rule digest_of_mono) simp
  ultimately show ?thesis by simp
qed


lemma consistent_update:
  assumes "consistent W G m" and "digest_of k W G job = Some (Inr d)"
  shows "consistent W G (m(job \<mapsto> d))"
  using assms unfolding consistent_def by auto

lemma dep_hashes_refines:
  assumes step: "\<And>m d r. d \<in> set ds \<Longrightarrow> consistent W G m \<Longrightarrow> f d = Some r
                   \<Longrightarrow> \<exists>m'. g m d = Some (r, m') \<and> consistent W G m' \<and> m \<subseteq>\<^sub>m m'"
    and "consistent W G m" and "dep_digests f ds = Some R"
  shows "\<exists>m'. dep_hashes g m ds = Some (R, m') \<and> consistent W G m' \<and> m \<subseteq>\<^sub>m m'"
  using assms
proof (induction ds arbitrary: m R)
  case Nil
  then show ?case by auto
next
  case (Cons d ds)
  from Cons.prems(3) obtain r where r: "f d = Some r"
    by (auto split: option.splits)
  from Cons.prems(1)[OF _ Cons.prems(2) r]
  obtain m1 where m1: "g m d = Some (r, m1)" "consistent W G m1" "m \<subseteq>\<^sub>m m1"
    by auto
  show ?case
  proof (cases r)
    case (Inl e)
    with r Cons.prems(3) have "R = Inl e" by simp
    with m1 Inl show ?thesis by auto
  next
    case (Inr x)
    with r Cons.prems(3) obtain R' where R': "dep_digests f ds = Some R'"
      by (auto split: option.splits)
    have "\<exists>m'. dep_hashes g m1 ds = Some (R', m') \<and> consistent W G m' \<and> m1 \<subseteq>\<^sub>m m'"
      by (rule Cons.IH[OF _ m1(2) R']) (rule Cons.prems(1), simp_all)
    then obtain m2 where m2: "dep_hashes g m1 ds = Some (R', m2)" "consistent W G m2" "m1 \<subseteq>\<^sub>m m2"
      by auto
    have le: "m \<subseteq>\<^sub>m m2" using m1(3) m2(3) by (rule map_le_trans)
    show ?thesis
    proof (cases R')
      case (Inl e)
      with R' r \<open>r = Inr x\<close> Cons.prems(3) have "R = Inl e" by simp
      with m1(1) m2 Inl \<open>r = Inr x\<close> le show ?thesis by auto
    next
      case (Inr xs)
      with R' r \<open>r = Inr x\<close> Cons.prems(3) have "R = Inr (x # xs)" by simp
      with m1(1) m2 Inr \<open>r = Inr x\<close> le show ?thesis by auto
    qed
  qed
qed

lemma memo_refines:
  "consistent W G m \<Longrightarrow> digest_of n W G job = Some r
     \<Longrightarrow> \<exists>m'. priv_get_provenance_hash n W G m job = Some (r, m') \<and> consistent W G m' \<and> m \<subseteq>\<^sub>m m'"
proof (induction n arbitrary: m job r)
  case 0
  then show ?case by simp
next
  case (Suc n)
  show ?case
  proof (cases "m job")
    case (Some d)
    with Suc.prems(1) obtain k where "digest_of k W G job = Some (Inr d)"
      unfolding consistent_def by blast
    with Suc.prems(2) have "r = Inr d" by (metis digest_of_unique)
    with Some Suc.prems(1) show ?thesis by (simp add: priv_Suc)
  next
    case None
    show ?thesis
    proof (cases "own_bytes W G job")
      case (Inl e)
      with Suc.prems(2) have "r = Inl e" by simp
      with None Inl Suc.prems(1) show ?thesis by (simp add: priv_Suc)
    next
      case (Inr h)
      with Suc.prems(2) obtain R where R: "dep_digests (digest_of n W G) (upstream_jobs G job) = Some R"
        by (auto split: option.splits)
      have "\<exists>m'. dep_hashes (priv_get_provenance_hash n W G) m (upstream_jobs G job) = Some (R, m')
                 \<and> consistent W G m' \<and> m \<subseteq>\<^sub>m m'"
        by (rule dep_hashes_refines[OF _ Suc.prems(1) R]) (rule Suc.IH)
      then obtain m2 where m2:
        "dep_hashes (priv_get_provenance_hash n W G) m (upstream_jobs G job) = Some (R, m2)"
        "consistent W G m2" "m \<subseteq>\<^sub>m m2"
        by auto
      show ?thesis
      proof (cases R)
        case (Inl e)
        with R Inr Suc.prems(2) have "r = Inl e" by simp
        with None \<open>own_bytes W G job = Inr h\<close> m2 Inl show ?thesis by (simp add: priv_Suc)
      next
        case (Inr ds)
        with R \<open>own_bytes W G job = Inr h\<close> Suc.prems(2)
        have r: "r = Inr (sha256 W (feed_sorted ds h))" by simp
        have c: "consistent W G (m2(job \<mapsto> sha256 W (feed_sorted ds h)))"
          using m2(2) Suc.prems(2) unfolding r by (rule consistent_update)
        have le: "m \<subseteq>\<^sub>m m2(job \<mapsto> sha256 W (feed_sorted ds h))"
          using m2(3) None by (auto simp: map_le_def dom_def)
        from None \<open>own_bytes W G job = Inr h\<close> m2(1) Inr r c le show ?thesis
          by (simp add: priv_Suc)
      qed
    qed
  qed
qed

lemma dep_hashes_sound:
  assumes step: "\<And>m d r m'. d \<in> set ds \<Longrightarrow> consistent W G m \<Longrightarrow> g m d = Some (r, m')
                   \<Longrightarrow> (\<exists>k. digest_of k W G d = Some r) \<and> consistent W G m' \<and> m \<subseteq>\<^sub>m m'"
    and "consistent W G m" and "dep_hashes g m ds = Some (R, m')"
  shows "(\<exists>k. dep_digests (digest_of k W G) ds = Some R) \<and> consistent W G m' \<and> m \<subseteq>\<^sub>m m'"
  using assms
proof (induction ds arbitrary: m R m')
  case Nil
  then show ?case by auto
next
  case (Cons d ds)
  from Cons.prems(3) obtain r m1 where r: "g m d = Some (r, m1)"
    by (auto split: option.splits)
  from Cons.prems(1)[OF _ Cons.prems(2) r]
  obtain k where k: "digest_of k W G d = Some r" and m1: "consistent W G m1" "m \<subseteq>\<^sub>m m1"
    by auto
  show ?case
  proof (cases r)
    case (Inl e)
    with r Cons.prems(3) have "R = Inl e" "m' = m1" by simp_all
    moreover have "dep_digests (digest_of k W G) (d # ds) = Some (Inl e)"
      using k Inl by simp
    ultimately show ?thesis using m1 by blast
  next
    case (Inr x)
    with r Cons.prems(3) obtain R' where R': "dep_hashes g m1 ds = Some (R', m')"
      and R: "R = (case R' of Inl e \<Rightarrow> Inl e | Inr xs \<Rightarrow> Inr (x # xs))"
      by (auto split: option.splits sum.splits)
    have "(\<exists>k. dep_digests (digest_of k W G) ds = Some R') \<and> consistent W G m' \<and> m1 \<subseteq>\<^sub>m m'"
      by (rule Cons.IH[OF _ m1(1) R']) (rule Cons.prems(1), simp_all)
    then obtain k' where k': "dep_digests (digest_of k' W G) ds = Some R'"
      and m': "consistent W G m'" "m1 \<subseteq>\<^sub>m m'"
      by auto
    have le: "m \<subseteq>\<^sub>m m'" using m1(2) m'(2) by (rule map_le_trans)
    have kd: "digest_of (max k k') W G d = Some r"
      using k by (rule digest_of_mono) simp
    have kds: "dep_digests (digest_of (max k k') W G) ds = Some R'"
      by (rule dep_digests_mono[OF _ k']) (erule digest_of_mono, simp)
    have "dep_digests (digest_of (max k k') W G) (d # ds) = Some R"
      using kd kds Inr R by (simp split: sum.splits)
    with m'(1) le show ?thesis by blast
  qed
qed

lemma memo_sound:
  "consistent W G m \<Longrightarrow> priv_get_provenance_hash n W G m job = Some (r, m')
     \<Longrightarrow> (\<exists>k. digest_of k W G job = Some r) \<and> consistent W G m' \<and> m \<subseteq>\<^sub>m m'"
proof (induction n arbitrary: m job r m')
  case 0
  then show ?case by simp
next
  case (Suc n)
  show ?case
  proof (cases "m job")
    case (Some d)
    with Suc.prems(2) have eq: "r = Inr d" "m' = m" by (simp_all add: priv_Suc)
    from Some Suc.prems(1) obtain k where "digest_of k W G job = Some (Inr d)"
      unfolding consistent_def by blast
    with eq Suc.prems(1) show ?thesis by auto
  next
    case None
    show ?thesis
    proof (cases "own_bytes W G job")
      case (Inl e)
      with None Suc.prems(2) have eq: "r = Inl e" "m' = m" by (simp_all add: priv_Suc)
      have "digest_of (Suc 0) W G job = Some (Inl e)" using Inl by simp
      then have "\<exists>k. digest_of k W G job = Some r" unfolding eq by (rule exI)
      with eq Suc.prems(1) show ?thesis by simp
    next
      case (Inr h)
      with None Suc.prems(2) obtain R m2 where R:
        "dep_hashes (priv_get_provenance_hash n W G) m (upstream_jobs G job) = Some (R, m2)"
        by (auto simp: priv_Suc split: option.splits)
      have "(\<exists>k. dep_digests (digest_of k W G) (upstream_jobs G job) = Some R)
              \<and> consistent W G m2 \<and> m \<subseteq>\<^sub>m m2"
        by (rule dep_hashes_sound[OF _ Suc.prems(1) R]) (rule Suc.IH)
      then obtain k where k: "dep_digests (digest_of k W G) (upstream_jobs G job) = Some R"
        and m2: "consistent W G m2" "m \<subseteq>\<^sub>m m2"
        by auto
      show ?thesis
      proof (cases R)
        case (Inl e)
        with None \<open>own_bytes W G job = Inr h\<close> R Suc.prems(2)
        have eq: "r = Inl e" "m' = m2" by (simp_all add: priv_Suc)
        have "digest_of (Suc k) W G job = Some (Inl e)"
          using \<open>own_bytes W G job = Inr h\<close> k Inl by simp
        with eq m2 show ?thesis by blast
      next
        case (Inr ds)
        with None \<open>own_bytes W G job = Inr h\<close> R Suc.prems(2)
        have eq: "r = Inr (sha256 W (feed_sorted ds h))"
          "m' = m2(job \<mapsto> sha256 W (feed_sorted ds h))"
          by (simp_all add: priv_Suc)
        have d: "digest_of (Suc k) W G job = Some (Inr (sha256 W (feed_sorted ds h)))"
          using \<open>own_bytes W G job = Inr h\<close> k Inr by simp
        have c: "consistent W G (m2(job \<mapsto> sha256 W (feed_sorted ds h)))"
          using m2(1) d by (rule consistent_update)
        have le: "m \<subseteq>\<^sub>m m2(job \<mapsto> sha256 W (feed_sorted ds h))"
          using m2(2) None by (auto simp: map_le_def dom_def)
        from eq d c le show ?thesis by blast
      qed
    qed
  qed
qed

lemma consistent_new_engine: "consistent W G new_engine"
  by (simp add: consistent_def new_engine_def)

lemma reachable_consistent: "reachable W G m \<Longrightarrow> consistent W G m"
proof (induction rule: reachable.induct)
  case fresh
  show ?case by (rule consistent_new_engine)
next
  case (call m fuel job r m')
  then show ?case using memo_sound by blast
qed

subsection \<open>Text and bytes\<close>

lemma lead_byte: "n < 256 \<Longrightarrow> (192 + n div 64) mod 256 = 192 + n div (64::nat)"
proof -
  assume "n < 256"
  then have "n div 64 < 4" by simp
  then show ?thesis by simp
qed

lemma cont_byte: "(128 + n mod 64) mod 256 = 128 + n mod (64::nat)"
proof -
  have "n mod 64 < 64" by simp
  then have "128 + n mod 64 < 256" by linarith
  then show ?thesis by simp
qed

lemma utf8_eq_iff: "utf8 c @ s = utf8 c' @ t \<longleftrightarrow> c = c' \<and> s = t"
proof
  assume eq: "utf8 c @ s = utf8 c' @ t"
  define n where "n = (of_char c :: nat)"
  define n' where "n' = (of_char c' :: nat)"
  have b: "n < 256" "n' < 256" by (simp_all add: n_def n'_def)
  have c: "c = char_of n" "c' = char_of n'" by (simp_all add: n_def n'_def)
  consider "n < 128" "n' < 128" | "n < 128" "128 \<le> n'" | "128 \<le> n" "n' < 128" | "128 \<le> n" "128 \<le> n'"
    by linarith
  then show "c = c' \<and> s = t"
  proof cases
    case 1
    with eq show ?thesis by (simp add: utf8_def n_def n'_def)
  next
    case 2
    with eq have "c = char_of (192 + n' div 64)"
      by (simp add: utf8_def n_def[symmetric] n'_def[symmetric] Let_def)
    then have "n mod 256 = (192 + n' div 64) mod 256"
      unfolding c(1) by (simp only: char_of_quasi_inj)
    then have "n = 192 + n' div 64" using b by (simp only: lead_byte mod_less)
    with 2 show ?thesis by linarith
  next
    case 3
    with eq have "c' = char_of (192 + n div 64)"
      by (simp add: utf8_def n_def[symmetric] n'_def[symmetric] Let_def)
    then have "n' mod 256 = (192 + n div 64) mod 256"
      unfolding c(2) by (simp only: char_of_quasi_inj)
    then have "n' = 192 + n div 64" using b by (simp only: lead_byte mod_less)
    with 3 show ?thesis by linarith
  next
    case 4
    with eq have e: "char_of (192 + n div 64) = (char_of (192 + n' div 64) :: char)"
      "char_of (128 + n mod 64) = (char_of (128 + n' mod 64) :: char)" "s = t"
      by (simp_all add: utf8_def n_def[symmetric] n'_def[symmetric] Let_def)
    from e(1) have "(192 + n div 64) mod 256 = (192 + n' div 64) mod 256"
      by (simp only: char_of_quasi_inj)
    then have d: "n div 64 = n' div 64" using b by (simp only: lead_byte)
    from e(2) have "(128 + n mod 64) mod 256 = (128 + n' mod 64) mod 256"
      by (simp only: char_of_quasi_inj)
    then have m: "n mod 64 = n' mod 64" by (simp add: cont_byte)
    have "n = 64 * (n div 64) + n mod 64" by simp
    also have "\<dots> = 64 * (n' div 64) + n' mod 64" by (simp only: d m)
    also have "\<dots> = n'" by simp
    finally have "n = n'" .
    with c e(3) show ?thesis by simp
  qed
qed simp

lemma utf8_not_Nil: "utf8 c \<noteq> []"
  by (simp add: utf8_def Let_def)

lemma encode_inject: "encode s = encode t \<Longrightarrow> s = t"
proof (induction s arbitrary: t)
  case Nil
  then show ?case by (cases t) (simp_all add: encode_def utf8_not_Nil)
next
  case (Cons c s)
  show ?case
  proof (cases t)
    case Nil
    with Cons.prems show ?thesis by (simp add: encode_def utf8_not_Nil)
  next
    case (Cons c' t')
    with Cons.prems have "utf8 c @ encode s = utf8 c' @ encode t'"
      by (simp add: encode_def)
    then have "c = c'" "encode s = encode t'" by (simp_all add: utf8_eq_iff)
    with Cons.IH Cons show ?thesis by simp
  qed
qed


subsection \<open>The guard on the outputs, the environment and the version tag\<close>



text \<open>
  C6: the bytes the environment step feeds follow the four branches of lines 82 to 87.
  With conda in use and a conda environment on the job: the environment's container URL
  (when containers are in use and the URL is not empty) and then the environment's content;
  otherwise the content alone. Without an active conda environment: the job's own container
  URL when containers are in use and the URL is not empty; otherwise nothing.
\<close>

theorem environment_four_way:
  "(conda_env j = Some env \<and> use_conda wfl \<and> use_singularity wfl
      \<and> env_singularity_img_url env = Some url \<and> url \<noteq> []
      \<longrightarrow> hash_environment wfl j h = h @ encode url @ encode (content env))
   \<and> (conda_env j = Some env \<and> use_conda wfl
      \<and> \<not> (use_singularity wfl \<and> (\<exists>u. env_singularity_img_url env = Some u \<and> u \<noteq> []))
      \<longrightarrow> hash_environment wfl j h = h @ encode (content env))
   \<and> (\<not> (use_conda wfl \<and> conda_env j \<noteq> None) \<and> use_singularity wfl
      \<and> singularity_img_url j = Some url \<and> url \<noteq> []
      \<longrightarrow> hash_environment wfl j h = h @ encode url)
   \<and> (\<not> (use_conda wfl \<and> conda_env j \<noteq> None)
      \<and> \<not> (use_singularity wfl \<and> (\<exists>u. singularity_img_url j = Some u \<and> u \<noteq> []))
      \<longrightarrow> hash_environment wfl j h = h)"
  by (auto simp: hash_environment_def hash_container_def split: option.splits)


theorem environment_four_way_witness:
  "hash_environment ex_workflow (jobs ex_dag 1) ''x'' = ''xdocker://imgdeps''
   \<and> hash_environment (ex_workflow\<lparr>use_singularity := False\<rparr>) (jobs ex_dag 1) ''x'' = ''xdeps''
   \<and> hash_environment ex_workflow ((jobs ex_dag 0)\<lparr>singularity_img_url := Some ''docker://y''\<rparr>) ''x''
       = ''xdocker://y''
   \<and> hash_environment ex_workflow (jobs ex_dag 0) ''x'' = ''x''"
  using
    environment_four_way [where j = "jobs ex_dag 1" and wfl = ex_workflow and h = "''x''"
      and env = "\<lparr>env_singularity_img_url = Some ''docker://img'', content = ''deps''\<rparr>"
      and url = "''docker://img''"]
    environment_four_way [where j = "jobs ex_dag 1" and wfl = "ex_workflow\<lparr>use_singularity := False\<rparr>"
      and h = "''x''"
      and env = "\<lparr>env_singularity_img_url = Some ''docker://img'', content = ''deps''\<rparr>"
      and url = "''docker://img''"]
    environment_four_way [where wfl = ex_workflow and h = "''x''"
      and j = "(jobs ex_dag 0)\<lparr>singularity_img_url := Some ''docker://y''\<rparr>"
      and url = "''docker://y''"]
    environment_four_way [where j = "jobs ex_dag 0" and wfl = ex_workflow and h = "''x''"]
  by (simp add: ex_dag_def ex_jobs_def shell_job_def ex_workflow_def encode_def utf8_def)

text \<open>
  C2: the digest \<^verbatim>\<open>get_provenance_hash\<close> returns is SHA-256 over the encoded hex text of the
  digest of \<^verbatim>\<open>_get_provenance_hash\<close> followed by the encoded version tag, which the module
  sets to \<^verbatim>\<open>0.1\<close>; an exception and the memo map pass through unchanged. The bytes hashed
  under two different tags differ for every job, so for a digest function without
  collisions two different tags give two different final digests.
\<close>

theorem versioned_digest:
  "get_provenance_hash fuel W G m job = get_provenance_hash_with ''0.1'' fuel W G m job
   \<and> get_provenance_hash_with version fuel W G m job
       = map_option (\<lambda>(r, m'). (map_sum id (\<lambda>d. sha256 W (encode d @ encode version)) r, m'))
           (priv_get_provenance_hash fuel W G m job)
   \<and> (version \<noteq> version' \<longrightarrow> encode d @ encode version \<noteq> encode d @ encode version')
   \<and> (inj (sha256 W) \<and> version \<noteq> version'
        \<and> priv_get_provenance_hash fuel W G m job = Some (Inr d, m')
      \<longrightarrow> get_provenance_hash_with version fuel W G m job
            \<noteq> get_provenance_hash_with version' fuel W G m job)"
proof (intro conjI impI)
  show "get_provenance_hash fuel W G m job = get_provenance_hash_with ''0.1'' fuel W G m job"
    by (simp add: get_provenance_hash_def module_version_def)
  show "get_provenance_hash_with version fuel W G m job
       = map_option (\<lambda>(r, m'). (map_sum id (\<lambda>d. sha256 W (encode d @ encode version)) r, m'))
           (priv_get_provenance_hash fuel W G m job)"
    by (simp add: get_provenance_hash_with_def split: option.split sum.split prod.split)
  show "encode d @ encode version \<noteq> encode d @ encode version'" if "version \<noteq> version'"
    using that encode_inject by auto
  show "get_provenance_hash_with version fuel W G m job
            \<noteq> get_provenance_hash_with version' fuel W G m job"
    if h: "inj (sha256 W) \<and> version \<noteq> version'
        \<and> priv_get_provenance_hash fuel W G m job = Some (Inr d, m')"
  proof -
    from h have "encode d @ encode version \<noteq> encode d @ encode version'"
      using encode_inject by auto
    with h have "sha256 W (encode d @ encode version) \<noteq> sha256 W (encode d @ encode version')"
      by (auto dest: injD)
    with h show ?thesis by (simp add: get_provenance_hash_with_def)
  qed
qed

lemma inj_ex_sha: "inj (sha256 ex_world)"
  by (rule injI) (simp add: ex_world_def)

theorem versioned_digest_witness:
  "inj (sha256 ex_world) \<and> ''0.1'' \<noteq> ''0.2''
   \<and> priv_get_provenance_hash 1 ex_world ex_dag new_engine 0
       = Some (Inr ''<echo hi>'', new_engine(0 \<mapsto> ''<echo hi>''))
   \<and> get_provenance_hash 1 ex_world ex_dag new_engine 0
       = Some (Inr ''<<echo hi>0.1>'', new_engine(0 \<mapsto> ''<echo hi>''))
   \<and> get_provenance_hash_with ''0.1'' 1 ex_world ex_dag new_engine 0
       \<noteq> get_provenance_hash_with ''0.2'' 1 ex_world ex_dag new_engine 0"
proof -
  have p: "priv_get_provenance_hash 1 ex_world ex_dag new_engine 0
       = Some (Inr ''<echo hi>'', new_engine(0 \<mapsto> ''<echo hi>''))"
    by (simp add: priv_Suc own_bytes_def new_engine_def ex_dag_def ex_jobs_def
        shell_job_def ex_deps_def upstream_jobs_def hash_exec_def hash_params_def sorted_items_def
        hash_environment_def hash_container_def feed_sorted_def ex_world_def ex_workflow_def
        encode_def utf8_def)
  note v = versioned_digest [where version = "''0.1''" and version' = "''0.2''" and fuel = 1
      and W = ex_world and G = ex_dag and m = new_engine and job = 0 and d = "''<echo hi>''"
      and m' = "new_engine(0 \<mapsto> ''<echo hi>'')"]
  have s: "sha256 ex_world (encode ''<echo hi>'' @ encode ''0.1'') = ''<<echo hi>0.1>''"
    by (simp add: ex_world_def encode_def utf8_def)
  have vne: "''0.1'' \<noteq> ''0.2''" by simp
  from v p inj_ex_sha vne
  have ne: "get_provenance_hash_with ''0.1'' 1 ex_world ex_dag new_engine 0
       \<noteq> get_provenance_hash_with ''0.2'' 1 ex_world ex_dag new_engine 0"
    by blast
  from v p s
  have eq: "get_provenance_hash 1 ex_world ex_dag new_engine 0
       = Some (Inr ''<<echo hi>0.1>'', new_engine(0 \<mapsto> ''<echo hi>''))"
    by simp
  from inj_ex_sha vne p eq ne show ?thesis by blast
qed

lemma ex_priv_0:
  "priv_get_provenance_hash (Suc n) ex_world ex_dag new_engine 0
     = Some (Inr ''<echo hi>'', new_engine(0 \<mapsto> ''<echo hi>''))"
  by (simp add: priv_Suc own_bytes_def new_engine_def ex_dag_def ex_jobs_def
      shell_job_def ex_deps_def upstream_jobs_def hash_exec_def hash_params_def sorted_items_def
      hash_environment_def hash_container_def feed_sorted_def ex_world_def ex_workflow_def
      encode_def utf8_def)

lemma ex_sha: "sha256 ex_world bs = ''<'' @ bs @ ''>''"
  by (simp add: ex_world_def)

lemma encode_ascii [simp]: "of_char c < (128::nat) \<Longrightarrow> encode (c # s) = c # encode s"
  by (simp add: encode_def utf8_def)

lemma encode_Nil [simp]: "encode [] = []"
  by (simp add: encode_def)

lemma fresh_engine_digest:
  assumes "digest_of k W G job = Some r"
  shows "\<exists>m'. priv_get_provenance_hash k W G new_engine job = Some (r, m')"
  using memo_refines [OF consistent_new_engine assms] by blast

text \<open>
  C10: \<^verbatim>\<open>get_provenance_hash\<close> leaves the memo map exactly as its call of
  \<^verbatim>\<open>_get_provenance_hash\<close> left it, whatever the version tag, so the versioned digest is
  never stored and the map does not depend on the tag. In every map an engine can hold,
  each stored value is the unversioned digest a new engine's \<^verbatim>\<open>_get_provenance_hash\<close>
  returns for that job. For a job already in the map the public call still hashes the
  stored digest with the tag, and leaves the map as it is.
\<close>

theorem memo_holds_inner_digests:
  "map_option snd (get_provenance_hash_with version fuel W G m job)
     = map_option snd (priv_get_provenance_hash fuel W G m job)
   \<and> map_option snd (get_provenance_hash_with version fuel W G m job)
     = map_option snd (get_provenance_hash_with version' fuel W G m job)
   \<and> (reachable W G m \<and> get_provenance_hash_with version fuel W G m job = Some (r, m')
      \<longrightarrow> reachable W G m'
          \<and> (\<forall>j d. m' j = Some d
                \<longrightarrow> (\<exists>k m2. priv_get_provenance_hash k W G new_engine j = Some (Inr d, m2))))
   \<and> (m job = Some d
      \<longrightarrow> get_provenance_hash_with version (Suc fuel) W G m job
            = Some (Inr (sha256 W (encode d @ encode version)), m))"
proof (intro conjI impI)
  show a: "map_option snd (get_provenance_hash_with v fuel W G m job)
     = map_option snd (priv_get_provenance_hash fuel W G m job)" for v
    by (simp add: get_provenance_hash_with_def split: option.split sum.split prod.split)
  show "map_option snd (get_provenance_hash_with version fuel W G m job)
     = map_option snd (get_provenance_hash_with version' fuel W G m job)"
    by (simp only: a)
  show "get_provenance_hash_with version (Suc fuel) W G m job
            = Some (Inr (sha256 W (encode d @ encode version)), m)" if "m job = Some d"
    using that by (simp add: get_provenance_hash_with_def priv_Suc)
next
  assume h: "reachable W G m \<and> get_provenance_hash_with version fuel W G m job = Some (r, m')"
  then obtain r0 where p: "priv_get_provenance_hash fuel W G m job = Some (r0, m')"
    by (auto simp: get_provenance_hash_with_def split: option.splits sum.splits prod.splits)
  with h show re: "reachable W G m'" by (blast intro: reachable.call)
  then have c: "consistent W G m'" by (rule reachable_consistent)
  have "\<exists>k m2. priv_get_provenance_hash k W G new_engine j = Some (Inr d, m2)"
    if "m' j = Some d" for j d
  proof -
    from c that obtain k where "digest_of k W G j = Some (Inr d)"
      unfolding consistent_def by blast
    then show ?thesis using fresh_engine_digest by blast
  qed
  then show "\<forall>j d. m' j = Some d
                \<longrightarrow> (\<exists>k m2. priv_get_provenance_hash k W G new_engine j = Some (Inr d, m2))"
    by blast
qed


theorem memo_holds_inner_digests_witness:
  "reachable ex_world ex_dag new_engine
   \<and> get_provenance_hash_with ''0.1'' 1 ex_world ex_dag new_engine 0
       = Some (Inr ''<<echo hi>0.1>'', new_engine(0 \<mapsto> ''<echo hi>''))
   \<and> reachable ex_world ex_dag (new_engine(0 \<mapsto> ''<echo hi>''))
   \<and> (\<exists>k m2. priv_get_provenance_hash k ex_world ex_dag new_engine 0
                  = Some (Inr ''<echo hi>'', m2))
   \<and> get_provenance_hash_with ''0.1'' 3 ex_world ex_dag (new_engine(0 \<mapsto> ''<echo hi>'')) 0
       = Some (Inr ''<<echo hi>0.1>'', new_engine(0 \<mapsto> ''<echo hi>''))"
proof -
  let ?m = "new_engine(0 \<mapsto> ''<echo hi>'')"
  have g: "get_provenance_hash_with ''0.1'' 1 ex_world ex_dag new_engine 0
       = Some (Inr ''<<echo hi>0.1>'', ?m)"
    using ex_priv_0 [of 0] by (simp add: get_provenance_hash_with_def ex_sha)
  have s: "sha256 ex_world (encode ''<echo hi>'' @ encode ''0.1'') = ''<<echo hi>0.1>''"
    by (simp add: ex_sha)
  note t1 = memo_holds_inner_digests [where W = ex_world and G = ex_dag and m = new_engine
      and version = "''0.1''" and fuel = 1 and job = 0 and r = "Inr ''<<echo hi>0.1>''"
      and m' = ?m]
  note t2 = memo_holds_inner_digests [where W = ex_world and G = ex_dag and m = ?m
      and version = "''0.1''" and fuel = 2 and job = 0 and d = "''<echo hi>''"]
  from t1 g reachable.fresh [of ex_world ex_dag]
  have a: "reachable ex_world ex_dag ?m
       \<and> (\<forall>j d. ?m j = Some d
            \<longrightarrow> (\<exists>k m2. priv_get_provenance_hash k ex_world ex_dag new_engine j = Some (Inr d, m2)))"
    by blast
  then have b: "\<exists>k m2. priv_get_provenance_hash k ex_world ex_dag new_engine 0
                  = Some (Inr ''<echo hi>'', m2)"
    by simp
  from t2 s have c: "get_provenance_hash_with ''0.1'' 3 ex_world ex_dag ?m 0
       = Some (Inr ''<<echo hi>0.1>'', ?m)"
    by (simp add: eval_nat_numeral)
  from reachable.fresh [of ex_world ex_dag] g a b c show ?thesis by blast
qed

subsection \<open>Parameters\<close>

lemma sequence_Inl:
  "sequence xs = Inl e \<Longrightarrow> Inl e \<in> set xs"
  by (induction xs) (auto split: sum.splits)

lemma sequence_fails:
  "Inl e \<in> set xs \<Longrightarrow> \<exists>e'. sequence xs = Inl e'"
  by (induction xs) (auto split: sum.splits)

lemma dumps_error: "dumps v = Inl e \<Longrightarrow> e = TypeError"
proof (induction v arbitrary: e rule: dumps.induct)
  case (5 vs)
  from "5.prems" have "sequence (map dumps vs) = Inl e"
    by (simp split: sum.splits)
  then have "Inl e \<in> set (map dumps vs)" by (rule sequence_Inl)
  then obtain x where "x \<in> set vs" "dumps x = Inl e" by auto
  then show ?case using "5.IH" by blast
next
  case (6 kvs)
  let ?f = "\<lambda>kv. case dumps (snd kv) of Inl e \<Rightarrow> Inl e
                  | Inr s \<Rightarrow> Inr (json_string (fst kv) @ '': '' @ s)"
  from "6.prems" have "sequence (map ?f (sorted_items kvs)) = Inl e"
    by (simp split: sum.splits)
  then have "Inl e \<in> set (map ?f (sorted_items kvs))" by (rule sequence_Inl)
  then obtain kv where kv: "kv \<in> set (sorted_items kvs)" "?f kv = Inl e" by auto
  then have "dumps (snd kv) = Inl e" by (simp split: sum.splits)
  with kv(1) show ?case using "6.IH" by blast
qed simp_all

lemma hash_items_eq:
  "hash_items kvs h =
     (case sequence (map (\<lambda>kv. case dumps (snd kv) of Inl e \<Rightarrow> Inl e
                                | Inr s \<Rightarrow> Inr (encode (fst kv) @ encode s)) kvs) of
        Inl e \<Rightarrow> Inl e
      | Inr chunks \<Rightarrow> Inr (h @ concat chunks))"
proof (induction kvs arbitrary: h)
  case Nil
  then show ?case by simp
next
  case (Cons kv kvs)
  obtain k v where kv: "kv = (k, v)" by (cases kv)
  show ?case
    by (cases "dumps v") (simp_all add: kv Cons.IH split: sum.splits)
qed

lemma filter_key_distinct:
  "distinct (map fst zs) \<Longrightarrow> k \<in> set zs \<Longrightarrow> filter (\<lambda>x. fst k = fst x) zs = [k]"
proof (induction zs)
  case Nil
  then show ?case by simp
next
  case (Cons z zs)
  show ?case
  proof (cases "k = z")
    case True
    have "filter (\<lambda>x. fst z = fst x) zs = []"
      using Cons.prems(1) by (auto simp: filter_empty_conv)
    with True show ?thesis by simp
  next
    case False
    with Cons.prems have k: "k \<in> set zs" by simp
    then have "fst k \<in> fst ` set zs" by (rule imageI)
    moreover have "fst z \<notin> fst ` set zs" using Cons.prems(1) by simp
    ultimately have "fst k \<noteq> fst z" by metis
    with Cons.IH [OF _ k] Cons.prems(1) show ?thesis by simp
  qed
qed

lemma sorted_items_perm:
  assumes "distinct (map fst xs)" and "mset ys = mset xs"
  shows "sorted_items ys = sorted_items xs"
  unfolding sorted_items_def
proof (rule properties_for_sort_key)
  show "mset (sort_key fst xs) = mset ys" using assms(2) by simp
  show "sorted (map fst (sort_key fst xs))" by simp
  have my: "mset (map fst ys) = mset (map fst xs)" using assms(2) by simp
  have dy: "distinct (map fst ys)"
    using mset_eq_imp_distinct_iff [OF my] assms(1) by simp
  fix k assume "k \<in> set (sort_key fst xs)"
  then have kx: "k \<in> set xs" by simp
  have "set ys = set xs" using assms(2) by (rule mset_eq_setD)
  with kx have ky: "k \<in> set ys" by simp
  have "mset (map fst (sort_key fst xs)) = mset (map fst xs)" by simp
  then have "distinct (map fst (sort_key fst xs))"
    using mset_eq_imp_distinct_iff assms(1) by blast
  then have "filter (\<lambda>x. fst k = fst x) (sort_key fst xs) = [k]"
    using \<open>k \<in> set (sort_key fst xs)\<close> by (rule filter_key_distinct)
  moreover have "filter (\<lambda>x. fst k = fst x) ys = [k]"
    using dy ky by (rule filter_key_distinct)
  ultimately show "filter (\<lambda>x. fst k = fst x) (sort_key fst xs) = filter (\<lambda>x. fst k = fst x) ys"
    by simp
qed

lemma hash_params_perm:
  "distinct (map fst xs) \<Longrightarrow> mset ys = mset xs \<Longrightarrow> hash_params ys h = hash_params xs h"
  using sorted_items_perm [of xs ys] by (simp add: hash_params_def)


lemma hash_params_error: "hash_params ps h = Inl e \<Longrightarrow> e = TypeError"
proof -
  let ?f = "\<lambda>kv. case dumps (snd kv) of Inl e \<Rightarrow> Inl e
                  | Inr s \<Rightarrow> Inr (encode (fst kv) @ encode s)"
  assume "hash_params ps h = Inl e"
  then have "sequence (map ?f (sorted_items ps)) = Inl e"
    by (simp add: hash_params_def hash_items_eq split: sum.splits)
  then have "Inl e \<in> set (map ?f (sorted_items ps))" by (rule sequence_Inl)
  then obtain kv where "?f kv = Inl e" by auto
  then have "dumps (snd kv) = Inl e" by (simp split: sum.splits)
  then show ?thesis by (rule dumps_error)
qed

lemma hash_params_fails:
  assumes "kv \<in> set ps" and "dumps (snd kv) = Inl e"
  shows "hash_params ps h = Inl TypeError"
proof -
  define f where "f = (\<lambda>kv. case dumps (snd kv) of Inl e \<Rightarrow> Inl e
                  | Inr s \<Rightarrow> Inr (encode (fst kv) @ encode s))"
  have fk: "f kv = Inl e" using assms(2) by (simp add: f_def)
  have "kv \<in> set (sorted_items ps)" using assms(1) by (simp add: sorted_items_def)
  then have "f kv \<in> f ` set (sorted_items ps)" by (rule imageI)
  then have "Inl e \<in> set (map f (sorted_items ps))" by (simp only: fk set_map)
  then have "\<exists>e'. sequence (map f (sorted_items ps)) = Inl e'" by (rule sequence_fails)
  then obtain e' where "sequence (map f (sorted_items ps)) = Inl e'" ..
  then have "hash_params ps h = Inl e'"
    by (simp add: hash_params_def hash_items_eq f_def)
  moreover from this have "e' = TypeError" by (rule hash_params_error)
  ultimately show ?thesis by simp
qed

text \<open>
  C7: the parameter step takes the items of \<^verbatim>\<open>job.params\<close> in ascending order of their keys
  and feeds, for each, the encoded key and then the encoded \<^verbatim>\<open>json.dumps(value, sort_keys=True)\<close>,
  whose text for a dictionary does not depend on the order of its entries. A value
  \<^verbatim>\<open>json.dumps\<close> rejects makes the step raise \<^verbatim>\<open>TypeError\<close>, which leaves
  \<^verbatim>\<open>_get_provenance_hash\<close> and \<^verbatim>\<open>get_provenance_hash\<close> with the memo map untouched.
\<close>

theorem params_step:
  "hash_params ps h =
     (case sequence (map (\<lambda>kv. case dumps (snd kv) of Inl e \<Rightarrow> Inl e
                                | Inr s \<Rightarrow> Inr (encode (fst kv) @ encode s))
                         (sorted_items ps)) of
        Inl e \<Rightarrow> Inl e
      | Inr chunks \<Rightarrow> Inr (h @ concat chunks))
   \<and> sorted (map fst (sorted_items ps)) \<and> mset (sorted_items ps) = mset ps
   \<and> (distinct (map fst kvs) \<and> mset kvs' = mset kvs
        \<longrightarrow> dumps (PDict kvs') = dumps (PDict kvs))
   \<and> (kv \<in> set ps \<and> dumps (snd kv) = Inl e \<longrightarrow> hash_params ps h = Inl TypeError)
   \<and> (m job = None \<and> \<not> 1 < length (job_output (jobs G job))
        \<and> hash_exec W (workflow G) (jobs G job) [] = Inr hx
        \<and> kv \<in> set (params (jobs G job)) \<and> dumps (snd kv) = Inl e
      \<longrightarrow> priv_get_provenance_hash (Suc fuel) W G m job = Some (Inl TypeError, m)
          \<and> get_provenance_hash (Suc fuel) W G m job = Some (Inl TypeError, m))"
proof (intro conjI impI)
  show "hash_params ps h =
     (case sequence (map (\<lambda>kv. case dumps (snd kv) of Inl e \<Rightarrow> Inl e
                                | Inr s \<Rightarrow> Inr (encode (fst kv) @ encode s))
                         (sorted_items ps)) of
        Inl e \<Rightarrow> Inl e
      | Inr chunks \<Rightarrow> Inr (h @ concat chunks))"
    by (simp add: hash_params_def hash_items_eq)
  show "sorted (map fst (sorted_items ps))"
    by (simp add: sorted_items_def)
  show "mset (sorted_items ps) = mset ps"
    by (simp add: sorted_items_def)
  show "dumps (PDict kvs') = dumps (PDict kvs)"
    if "distinct (map fst kvs) \<and> mset kvs' = mset kvs"
    using that sorted_items_perm [of kvs kvs'] by simp
  show "hash_params ps h = Inl TypeError" if "kv \<in> set ps \<and> dumps (snd kv) = Inl e"
    using that hash_params_fails [of kv ps e h] by simp
next
  assume h: "m job = None \<and> \<not> 1 < length (job_output (jobs G job))
        \<and> hash_exec W (workflow G) (jobs G job) [] = Inr hx
        \<and> kv \<in> set (params (jobs G job)) \<and> dumps (snd kv) = Inl e"
  then have "hash_params (params (jobs G job)) hx = Inl TypeError"
    using hash_params_fails [of kv "params (jobs G job)" e hx] by simp
  with h have o: "own_bytes W G job = Inl TypeError" by (simp add: own_bytes_def)
  with h show p: "priv_get_provenance_hash (Suc fuel) W G m job = Some (Inl TypeError, m)"
    by (simp add: priv_Suc)
  then show "get_provenance_hash (Suc fuel) W G m job = Some (Inl TypeError, m)"
    by (simp add: get_provenance_hash_def get_provenance_hash_with_def)
qed


theorem params_step_witness:
  "hash_params [(''k'', PNone), (''b'', PBool True)] ''x'' = Inr ''xbtrueknull''
   \<and> distinct (map fst [(''z'', PNone), (''y'', PBool True)])
   \<and> mset [(''y'', PBool True), (''z'', PNone)] = mset [(''z'', PNone), (''y'', PBool True)]
   \<and> dumps (PDict [(''y'', PBool True), (''z'', PNone)])
       = dumps (PDict [(''z'', PNone), (''y'', PBool True)])
   \<and> (''p'', PList [PInt 1, PObject]) \<in> set (params (jobs ex_dag 6))
   \<and> dumps (snd (''p'', PList [PInt 1, PObject])) = Inl TypeError
   \<and> hash_params (params (jobs ex_dag 6)) ''true'' = Inl TypeError
   \<and> new_engine 6 = None \<and> \<not> 1 < length (job_output (jobs ex_dag 6))
   \<and> hash_exec ex_world (workflow ex_dag) (jobs ex_dag 6) [] = Inr ''true''
   \<and> priv_get_provenance_hash (Suc 0) ex_world ex_dag new_engine 6 = Some (Inl TypeError, new_engine)
   \<and> get_provenance_hash (Suc 0) ex_world ex_dag new_engine 6 = Some (Inl TypeError, new_engine)"
proof -
  let ?kv = "(''p'', PList [PInt 1, PObject])"
  have j: "jobs ex_dag 6 = shell_job ''u'' ''true'' [''u.txt''] [] [?kv]"
    by (simp add: ex_dag_def ex_jobs_def)
  have d: "dumps (snd ?kv) = Inl TypeError" by simp
  have i: "?kv \<in> set (params (jobs ex_dag 6))" by (simp add: j shell_job_def)
  have x: "hash_exec ex_world (workflow ex_dag) (jobs ex_dag 6) [] = Inr ''true''"
    by (simp add: j shell_job_def hash_exec_def)
  have n: "new_engine 6 = None" "\<not> 1 < length (job_output (jobs ex_dag 6))"
    by (simp_all add: new_engine_def j shell_job_def)
  have di: "distinct (map fst [(''z'', PNone), (''y'', PBool True)])" by simp
  have ms: "mset [(''y'', PBool True), (''z'', PNone)] = mset [(''z'', PNone), (''y'', PBool True)]"
    by simp
  note t1 = params_step [where ps = "[(''k'', PNone), (''b'', PBool True)]" and h = "''x''"
      and kvs = "[(''z'', PNone), (''y'', PBool True)]"
      and kvs' = "[(''y'', PBool True), (''z'', PNone)]"]
  note t2 = params_step [where ps = "params (jobs ex_dag 6)" and h = "''true''"
      and kv = ?kv and e = TypeError and m = new_engine and job = 6 and G = ex_dag
      and W = ex_world and hx = "''true''" and fuel = 0]
  have s: "sorted_items [(''k'', PNone), (''b'', PBool True)] = [(''b'', PBool True), (''k'', PNone)]"
    by (simp add: sorted_items_def less_eq_char_def)
  have a: "hash_params [(''k'', PNone), (''b'', PBool True)] ''x'' = Inr ''xbtrueknull''"
    using t1 by (simp add: s)
  from t1 di ms
  have b: "dumps (PDict [(''y'', PBool True), (''z'', PNone)])
       = dumps (PDict [(''z'', PNone), (''y'', PBool True)])"
    by blast
  from t2 i d have c: "hash_params (params (jobs ex_dag 6)) ''true'' = Inl TypeError"
    by blast
  from t2 n x i d
  have e: "priv_get_provenance_hash (Suc 0) ex_world ex_dag new_engine 6 = Some (Inl TypeError, new_engine)
     \<and> get_provenance_hash (Suc 0) ex_world ex_dag new_engine 6 = Some (Inl TypeError, new_engine)"
    by blast
  from a di ms b i d c n x e show ?thesis by blast
qed

subsection \<open>Input files\<close>

lemma supplied_upstream_iff:
  "supplied_upstream deps f \<longleftrightarrow> f \<in> (\<Union>d \<in> set deps. set (snd d))"
  by (auto simp: supplied_upstream_def list_ex_iff)

lemma read_blocks_Nil: "read_blocks n [] = []"
  by (simp add: read_blocks.simps [of n "[]"])

lemma concat_read_blocks: "0 < n \<Longrightarrow> concat (read_blocks n bs) = bs"
proof (induction n bs rule: read_blocks.induct)
  case (1 n bs)
  show ?case
  proof (cases "bs = []")
    case True
    then show ?thesis by (simp add: read_blocks_Nil)
  next
    case False
    with 1 have "concat (read_blocks n (drop n bs)) = drop n bs" by simp
    with False 1(2) show ?thesis
      by (simp add: read_blocks.simps [of n bs])
  qed
qed

lemma read_blocks_bounded: "b \<in> set (read_blocks n bs) \<Longrightarrow> length b \<le> n \<and> b \<noteq> []"
proof (induction n bs rule: read_blocks.induct)
  case (1 n bs)
  show ?case
  proof (cases "n = 0 \<or> bs = []")
    case True
    with 1(2) show ?thesis by (simp add: read_blocks.simps [of n bs])
  next
    case False
    with 1(2) have "b = take n bs \<or> b \<in> set (read_blocks n (drop n bs))"
      by (simp add: read_blocks.simps [of n bs])
    with False 1(1) show ?thesis by auto
  qed
qed

lemma foldl_append_blocks: "foldl (\<lambda>h b. h @ b) h bss = h @ concat bss"
  by (induction bss arbitrary: h) simp_all

lemma hash_blocks_eq: "hash_blocks data h = h @ data"
  by (simp add: hash_blocks_def foldl_append_blocks concat_read_blocks)

lemma hash_input_files_cong:
  assumes "\<And>f. f \<in> set inputs \<Longrightarrow> \<not> supplied_upstream deps f \<Longrightarrow> fs f = fs' f"
  shows "hash_input_files mode fs deps inputs h = hash_input_files mode fs' deps inputs h"
  using assms
proof (induction inputs arbitrary: h)
  case Nil
  then show ?case by simp
next
  case (Cons f rest)
  have r: "hash_input_files mode fs deps rest h' = hash_input_files mode fs' deps rest h'" for h'
    by (rule Cons.IH) (simp add: Cons.prems)
  show ?case
  proof (cases "supplied_upstream deps f")
    case True
    then show ?thesis by (simp add: r)
  next
    case False
    then have "fs f = fs' f" using Cons.prems by simp
    then have "py_open fs f mode = py_open fs' f mode" by (simp add: py_open_def)
    with False show ?thesis by (simp add: r split: sum.split)
  qed
qed


lemma py_open_b: "py_open fs f ''b'' = Inl ValueError"
  by (simp add: py_open_def)

lemma hash_input_files_b:
  "hash_input_files ''b'' fs deps inputs h =
     (if list_ex (\<lambda>f. \<not> supplied_upstream deps f) inputs then Inl ValueError else Inr h)"
  by (induction inputs arbitrary: h) (simp_all add: py_open_b)

lemma own_bytes_files:
  assumes "\<And>f. f \<in> set (job_input (jobs G job)) \<Longrightarrow> \<not> supplied_upstream (dependencies G job) f
             \<Longrightarrow> files W f = fs' f"
  shows "own_bytes (W\<lparr>files := fs'\<rparr>) G job = own_bytes W G job"
proof -
  have "hash_input_files ''b'' (files W) (dependencies G job) (job_input (jobs G job)) h
      = hash_input_files ''b'' fs' (dependencies G job) (job_input (jobs G job)) h" for h
    by (rule hash_input_files_cong) (rule assms)
  moreover have "hash_exec (W\<lparr>files := fs'\<rparr>) = hash_exec W"
    by (simp add: hash_exec_def fun_eq_iff)
  ultimately show ?thesis by (simp add: own_bytes_def split: sum.split)
qed

text \<open>
  C4: an input is skipped exactly when it lies in the union of the file sets of the
  upstream jobs, and a skipped input is not opened and feeds nothing: the input step, with
  any mode of \<^verbatim>\<open>open\<close>, gives the same result on two file systems that agree on the
  inputs no upstream job supplies, and so do the bytes the job feeds for itself.
\<close>

theorem internal_inputs_not_read:
  "(supplied_upstream deps f \<longleftrightarrow> f \<in> (\<Union>d \<in> set deps. set (snd d)))
   \<and> (supplied_upstream deps f
        \<longrightarrow> hash_input_files mode fs deps (f # rest) h = hash_input_files mode fs deps rest h)
   \<and> ((\<forall>f \<in> set inputs. \<not> supplied_upstream deps f \<longrightarrow> fs f = fs' f)
        \<longrightarrow> hash_input_files mode fs deps inputs h = hash_input_files mode fs' deps inputs h)
   \<and> ((\<forall>f \<in> set (job_input (jobs G job)).
           \<not> supplied_upstream (dependencies G job) f \<longrightarrow> files W f = fs' f)
        \<longrightarrow> own_bytes (W\<lparr>files := fs'\<rparr>) G job = own_bytes W G job)"
proof (intro conjI impI)
  show "supplied_upstream deps f \<longleftrightarrow> f \<in> (\<Union>d \<in> set deps. set (snd d))"
    by (rule supplied_upstream_iff)
  show "hash_input_files mode fs deps (f # rest) h = hash_input_files mode fs deps rest h"
    if "supplied_upstream deps f"
    using that by simp
  show "hash_input_files mode fs deps inputs h = hash_input_files mode fs' deps inputs h"
    if "\<forall>f \<in> set inputs. \<not> supplied_upstream deps f \<longrightarrow> fs f = fs' f"
    by (rule hash_input_files_cong) (simp add: that)
  show "own_bytes (W\<lparr>files := fs'\<rparr>) G job = own_bytes W G job"
    if "\<forall>f \<in> set (job_input (jobs G job)).
           \<not> supplied_upstream (dependencies G job) f \<longrightarrow> files W f = fs' f"
    by (rule own_bytes_files) (simp add: that)
qed

theorem internal_inputs_not_read_witness:
  "supplied_upstream [(0, [''a.txt''])] ''a.txt''
   \<and> [''a.txt'' \<mapsto> ''one'', ''data.txt'' \<mapsto> ''abc''] ''a.txt''
       \<noteq> [''a.txt'' \<mapsto> ''two'', ''data.txt'' \<mapsto> ''abc''] ''a.txt''
   \<and> hash_input_files ''rb'' [''a.txt'' \<mapsto> ''one'', ''data.txt'' \<mapsto> ''abc'']
         [(0, [''a.txt''])] [''a.txt'', ''data.txt''] ''h'' = Inr ''habc''
   \<and> hash_input_files ''rb'' [''a.txt'' \<mapsto> ''two'', ''data.txt'' \<mapsto> ''abc'']
         [(0, [''a.txt''])] [''a.txt'', ''data.txt''] ''h'' = Inr ''habc''
   \<and> own_bytes (ex_world\<lparr>files := (files ex_world)(''a.txt'' \<mapsto> ''two'')\<rparr>) ex_dag 1
       = own_bytes ex_world ex_dag 1"
proof -
  let ?deps = "[(0::nat, [''a.txt''])]"
  let ?fs = "[''a.txt'' \<mapsto> ''one'', ''data.txt'' \<mapsto> ''abc'']"
  let ?fs' = "[''a.txt'' \<mapsto> ''two'', ''data.txt'' \<mapsto> ''abc'']"
  have s: "supplied_upstream ?deps ''a.txt''" "\<not> supplied_upstream ?deps ''data.txt''"
    by (simp_all add: supplied_upstream_def)
  have a: "\<forall>f \<in> set [''a.txt'', ''data.txt'']. \<not> supplied_upstream ?deps f \<longrightarrow> ?fs f = ?fs' f"
    using s by simp
  have v: "hash_input_files ''rb'' ?fs ?deps [''a.txt'', ''data.txt''] ''h'' = Inr ''habc''"
    using s by (simp add: py_open_def hash_blocks_eq)
  have j: "job_input (jobs ex_dag 1) = [''a.txt'']" "dependencies ex_dag 1 = ?deps"
    by (simp_all add: ex_dag_def ex_jobs_def ex_deps_def shell_job_def)
  have b: "\<forall>f \<in> set (job_input (jobs ex_dag 1)).
           \<not> supplied_upstream (dependencies ex_dag 1) f
             \<longrightarrow> files ex_world f = ((files ex_world)(''a.txt'' \<mapsto> ''two'')) f"
    unfolding j using s by simp
  note t1 = internal_inputs_not_read [where deps = ?deps and f = "''a.txt''" and mode = "''rb''"
      and fs = ?fs and fs' = ?fs' and inputs = "[''a.txt'', ''data.txt'']" and h = "''h''"]
  note t2 = internal_inputs_not_read [where G = ex_dag and job = 1 and W = ex_world
      and fs' = "(files ex_world)(''a.txt'' \<mapsto> ''two'')"]
  from t1 a v
  have w: "hash_input_files ''rb'' ?fs' ?deps [''a.txt'', ''data.txt''] ''h'' = Inr ''habc''"
    by simp
  from t2 b
  have o: "own_bytes (ex_world\<lparr>files := (files ex_world)(''a.txt'' \<mapsto> ''two'')\<rparr>) ex_dag 1
       = own_bytes ex_world ex_dag 1"
    by blast
  have d: "[''a.txt'' \<mapsto> ''one'', ''data.txt'' \<mapsto> ''abc''] ''a.txt''
       \<noteq> [''a.txt'' \<mapsto> ''two'', ''data.txt'' \<mapsto> ''abc''] ''a.txt''"
    by simp
  from s(1) d v w o show ?thesis by blast
qed

text \<open>
  C8 (the code departs from it): \<^verbatim>\<open>open(f, "b")\<close> names no reading, writing, appending or
  creating mode, so Python raises \<^verbatim>\<open>ValueError\<close> before it looks at the file. Job 5 of the
  example has the single input \<^verbatim>\<open>data.txt\<close>, which exists and which no upstream job
  supplies: its digest computation raises \<^verbatim>\<open>ValueError\<close>, while the same step with mode
  \<^verbatim>\<open>rb\<close> feeds the content of the file.
\<close>

theorem external_input_value_error:
  "files ex_world ''data.txt'' = Some ''abc''
   \<and> job_input (jobs ex_dag 5) = [''data.txt''] \<and> dependencies ex_dag 5 = []
   \<and> get_provenance_hash 1 ex_world ex_dag new_engine 5 = Some (Inl ValueError, new_engine)
   \<and> hash_input_files ''rb'' (files ex_world) (dependencies ex_dag 5) (job_input (jobs ex_dag 5)) []
       = Inr ''abc''"
proof -
  have j: "jobs ex_dag 5 = shell_job ''x'' ''wc'' [''x.txt''] [''data.txt''] []"
    "dependencies ex_dag 5 = []"
    by (simp_all add: ex_dag_def ex_jobs_def ex_deps_def)
  have f: "files ex_world ''data.txt'' = Some ''abc''" by (simp add: ex_world_def)
  have o: "own_bytes ex_world ex_dag 5 = Inl ValueError"
    by (simp add: own_bytes_def j shell_job_def hash_exec_def hash_params_def sorted_items_def
        py_open_b supplied_upstream_def)
  have g: "get_provenance_hash 1 ex_world ex_dag new_engine 5 = Some (Inl ValueError, new_engine)"
    using o by (simp add: get_provenance_hash_def get_provenance_hash_with_def priv_Suc new_engine_def)
  have r: "hash_input_files ''rb'' (files ex_world) (dependencies ex_dag 5) (job_input (jobs ex_dag 5)) []
       = Inr ''abc''"
    using f by (simp add: j shell_job_def supplied_upstream_def py_open_def hash_blocks_eq)
  from f j g r show ?thesis by (simp add: shell_job_def)
qed

subsection \<open>Upstream digests\<close>

lemma foldl_encode: "foldl (\<lambda>h d. h @ encode d) h xs = h @ concat (map encode xs)"
  by (induction xs arbitrary: h) simp_all

lemma feed_sorted_eq: "feed_sorted ds h = h @ concat (map encode (sort ds))"
  by (simp add: feed_sorted_def foldl_encode)

lemma sort_perm: "mset xs = mset ys \<Longrightarrow> sort xs = sort (ys :: string list)"
  by (rule properties_for_sort) simp_all

lemma feed_sorted_perm: "mset ds' = mset ds \<Longrightarrow> feed_sorted ds' h = feed_sorted ds h"
  using sort_perm [of ds' ds] by (simp add: feed_sorted_eq)

lemma dep_hashes_calls:
  "dep_hashes rec m xs = Some (Inr ds, m')
     \<Longrightarrow> list_all2 (\<lambda>dep d. \<exists>m1 m2. rec m1 dep = Some (Inr d, m2)) xs ds"
proof (induction xs arbitrary: m ds)
  case Nil
  then show ?case by simp
next
  case (Cons x xs)
  from Cons.prems obtain d m1 ds0 where
    x: "rec m x = Some (Inr d, m1)" and r: "dep_hashes rec m1 xs = Some (Inr ds0, m')"
    and ds: "ds = d # ds0"
    by (auto split: option.splits sum.splits)
  from Cons.IH [OF r] x ds show ?case by auto
qed

lemma upstream_jobs_set:
  "distinct (upstream_jobs G job) \<and> set (upstream_jobs G job) = fst ` set (dependencies G job)"
  by (simp add: upstream_jobs_def)

text \<open>
  C5: the upstream step visits the keys of \<^verbatim>\<open>dependencies[job]\<close> without repetition, calls
  \<^verbatim>\<open>_get_provenance_hash\<close> once for each and collects one digest per upstream job; the digests
  are sorted and fed in ascending order, so what is fed does not depend on the order in which
  they were collected. The digest of the job is SHA-256 over its own bytes followed by the
  sorted upstream digests.
\<close>

theorem upstream_step:
  "distinct (upstream_jobs G job)
   \<and> set (upstream_jobs G job) = fst ` set (dependencies G job)
   \<and> (dep_hashes rec m (upstream_jobs G job) = Some (Inr ds, m')
        \<longrightarrow> list_all2 (\<lambda>dep d. \<exists>ma mb. rec ma dep = Some (Inr d, mb)) (upstream_jobs G job) ds)
   \<and> feed_sorted ds h = h @ concat (map encode (sort ds))
   \<and> sorted (sort ds) \<and> mset (sort ds) = mset ds
   \<and> (mset ds' = mset ds \<longrightarrow> feed_sorted ds' h = feed_sorted ds h)
   \<and> (m job = None \<and> own_bytes W G job = Inr hb
        \<and> dep_hashes (priv_get_provenance_hash fuel W G) m (upstream_jobs G job) = Some (Inr ds, m')
      \<longrightarrow> priv_get_provenance_hash (Suc fuel) W G m job
            = Some (Inr (sha256 W (hb @ concat (map encode (sort ds)))),
                    m'(job \<mapsto> sha256 W (hb @ concat (map encode (sort ds))))))"
proof (intro conjI impI)
  show "distinct (upstream_jobs G job)"
    and "set (upstream_jobs G job) = fst ` set (dependencies G job)"
    by (simp_all add: upstream_jobs_set)
  show "list_all2 (\<lambda>dep d. \<exists>ma mb. rec ma dep = Some (Inr d, mb)) (upstream_jobs G job) ds"
    if "dep_hashes rec m (upstream_jobs G job) = Some (Inr ds, m')"
    using that by (rule dep_hashes_calls)
  show "feed_sorted ds h = h @ concat (map encode (sort ds))"
    by (rule feed_sorted_eq)
  show "sorted (sort ds)" and "mset (sort ds) = mset ds"
    by simp_all
  show "feed_sorted ds' h = feed_sorted ds h" if "mset ds' = mset ds"
    using that by (rule feed_sorted_perm)
  show "priv_get_provenance_hash (Suc fuel) W G m job
            = Some (Inr (sha256 W (hb @ concat (map encode (sort ds)))),
                    m'(job \<mapsto> sha256 W (hb @ concat (map encode (sort ds)))))"
    if "m job = None \<and> own_bytes W G job = Inr hb
        \<and> dep_hashes (priv_get_provenance_hash fuel W G) m (upstream_jobs G job) = Some (Inr ds, m')"
    using that by (simp add: priv_Suc feed_sorted_eq)
qed


subsection \<open>Running the example\<close>

lemma priv_hit:
  "m job = Some d \<Longrightarrow> priv_get_provenance_hash (Suc n) W G m job = Some (Inr d, m)"
  by (simp add: priv_Suc)

lemma ex_own_0:
  "own_bytes ex_world \<lparr>workflow = ex_workflow, jobs = ex_jobs ps, dependencies = ex_deps ds\<rparr> 0
     = Inr ''echo hi''"
  by (simp add: own_bytes_def ex_jobs_def shell_job_def ex_deps_def hash_exec_def hash_params_def
      sorted_items_def hash_environment_def hash_container_def)

lemma ex_own_1:
  "own_bytes ex_world \<lparr>workflow = ex_workflow, jobs = ex_jobs ps, dependencies = ex_deps ds\<rparr> (Suc 0)
     = Inr ''sortdocker://imgdeps''"
  by (simp add: own_bytes_def ex_jobs_def shell_job_def ex_deps_def hash_exec_def hash_params_def
      sorted_items_def hash_environment_def hash_container_def ex_workflow_def
      hash_input_files_b supplied_upstream_def)

lemma ex_own_2:
  "own_bytes ex_world \<lparr>workflow = ex_workflow, jobs = ex_jobs ps, dependencies = ex_deps ds\<rparr> 2
     = Inr ''print(1)''"
  by (simp add: own_bytes_def ex_jobs_def shell_job_def ex_deps_def hash_exec_def hash_params_def
      sorted_items_def hash_environment_def hash_container_def ex_workflow_def ex_world_def
      hash_input_files_b supplied_upstream_def)

lemma ex_sorted_params:
  "sorted_items ex_params = [(''b'', PBool True), (''k'', PNone)]"
  "sorted_items (rev ex_params) = [(''b'', PBool True), (''k'', PNone)]"
  by (simp_all add: sorted_items_def ex_params_def less_eq_char_def)

lemma ex_own_3:
  assumes "sorted_items ps = [(''b'', PBool True), (''k'', PNone)]"
    and "supplied_upstream ds ''b.txt''" and "supplied_upstream ds ''c.txt''"
  shows "own_bytes ex_world \<lparr>workflow = ex_workflow, jobs = ex_jobs ps, dependencies = ex_deps ds\<rparr> 3
     = Inr ''joinbtrueknull''"
  using assms(2,3)
  by (simp add: own_bytes_def ex_jobs_def shell_job_def ex_deps_def hash_exec_def hash_params_def
      assms(1) hash_environment_def hash_container_def hash_input_files_b)

lemma ex_up:
  "upstream_jobs \<lparr>workflow = w, jobs = js, dependencies = ex_deps ds\<rparr> 0 = []"
  "upstream_jobs \<lparr>workflow = w, jobs = js, dependencies = ex_deps ds\<rparr> (Suc 0) = [0]"
  "upstream_jobs \<lparr>workflow = w, jobs = js, dependencies = ex_deps ds\<rparr> 2 = [0]"
  "upstream_jobs \<lparr>workflow = w, jobs = js, dependencies = ex_deps ds\<rparr> 3 = remdups (map fst ds)"
  by (simp_all add: upstream_jobs_def ex_deps_def)

lemma ex_run_0:
  "m 0 = None \<Longrightarrow>
   priv_get_provenance_hash (Suc n) ex_world
     \<lparr>workflow = ex_workflow, jobs = ex_jobs ps, dependencies = ex_deps ds\<rparr> m 0
   = Some (Inr ''<echo hi>'', m(0 \<mapsto> ''<echo hi>''))"
  by (simp add: priv_Suc ex_own_0 ex_up ex_sha feed_sorted_eq)

lemma ex_run_1:
  "m 0 = None \<Longrightarrow> m (Suc 0) = None \<Longrightarrow>
   priv_get_provenance_hash (Suc (Suc n)) ex_world
     \<lparr>workflow = ex_workflow, jobs = ex_jobs ps, dependencies = ex_deps ds\<rparr> m (Suc 0)
   = Some (Inr ''<sortdocker://imgdeps<echo hi>>'',
           m(0 \<mapsto> ''<echo hi>'', Suc 0 \<mapsto> ''<sortdocker://imgdeps<echo hi>>''))"
  by (simp add: priv_Suc [of "Suc n"] ex_own_1 ex_up ex_run_0 ex_sha feed_sorted_eq)

lemma ex_run_2:
  "m 0 = Some ''<echo hi>'' \<Longrightarrow> m 2 = None \<Longrightarrow>
   priv_get_provenance_hash (Suc (Suc n)) ex_world
     \<lparr>workflow = ex_workflow, jobs = ex_jobs ps, dependencies = ex_deps ds\<rparr> m 2
   = Some (Inr ''<print(1)<echo hi>>'', m(2 \<mapsto> ''<print(1)<echo hi>>''))"
  by (simp add: priv_Suc [of "Suc n"] ex_own_2 ex_up priv_hit ex_sha feed_sorted_eq)

lemma ex_run_2_fresh:
  "m 0 = None \<Longrightarrow> m 2 = None \<Longrightarrow>
   priv_get_provenance_hash (Suc (Suc n)) ex_world
     \<lparr>workflow = ex_workflow, jobs = ex_jobs ps, dependencies = ex_deps ds\<rparr> m 2
   = Some (Inr ''<print(1)<echo hi>>'',
           m(0 \<mapsto> ''<echo hi>'', 2 \<mapsto> ''<print(1)<echo hi>>''))"
  by (simp add: priv_Suc [of "Suc n"] ex_own_2 ex_up ex_run_0 ex_sha feed_sorted_eq)

lemma ex_run_1_warm:
  "m 0 = Some ''<echo hi>'' \<Longrightarrow> m (Suc 0) = None \<Longrightarrow>
   priv_get_provenance_hash (Suc (Suc n)) ex_world
     \<lparr>workflow = ex_workflow, jobs = ex_jobs ps, dependencies = ex_deps ds\<rparr> m (Suc 0)
   = Some (Inr ''<sortdocker://imgdeps<echo hi>>'',
           m(Suc 0 \<mapsto> ''<sortdocker://imgdeps<echo hi>>''))"
  by (simp add: priv_Suc [of "Suc n"] ex_own_1 ex_up priv_hit ex_sha feed_sorted_eq)

lemma ex_sort_digests:
  "sort [''<sortdocker://imgdeps<echo hi>>'', ''<print(1)<echo hi>>'']
     = [''<print(1)<echo hi>>'', ''<sortdocker://imgdeps<echo hi>>'']"
  "sort [''<print(1)<echo hi>>'', ''<sortdocker://imgdeps<echo hi>>'']
     = [''<print(1)<echo hi>>'', ''<sortdocker://imgdeps<echo hi>>'']"
  by (simp_all add: less_eq_char_def)

lemma ex_run_3:
  "priv_get_provenance_hash (Suc (Suc (Suc n))) ex_world ex_dag new_engine 3
   = Some (Inr ''<joinbtrueknull<print(1)<echo hi>><sortdocker://imgdeps<echo hi>>>'',
           new_engine(0 \<mapsto> ''<echo hi>'', Suc 0 \<mapsto> ''<sortdocker://imgdeps<echo hi>>'',
             2 \<mapsto> ''<print(1)<echo hi>>'',
             3 \<mapsto> ''<joinbtrueknull<print(1)<echo hi>><sortdocker://imgdeps<echo hi>>>''))"
  unfolding ex_dag_def
  by (simp add: priv_Suc [of "Suc (Suc n)"] ex_own_3 ex_sorted_params ex_up ex_run_1 ex_run_2
      new_engine_def ex_sha feed_sorted_eq ex_sort_digests supplied_upstream_def)

lemma ex_run_3_reordered:
  "priv_get_provenance_hash (Suc (Suc (Suc n))) ex_world ex_dag_reordered new_engine 3
   = Some (Inr ''<joinbtrueknull<print(1)<echo hi>><sortdocker://imgdeps<echo hi>>>'',
           new_engine(0 \<mapsto> ''<echo hi>'', 2 \<mapsto> ''<print(1)<echo hi>>'',
             Suc 0 \<mapsto> ''<sortdocker://imgdeps<echo hi>>'',
             3 \<mapsto> ''<joinbtrueknull<print(1)<echo hi>><sortdocker://imgdeps<echo hi>>>''))"
  unfolding ex_dag_reordered_def
  by (simp add: priv_Suc [of "Suc (Suc n)"] ex_own_3 ex_sorted_params ex_up ex_run_2_fresh
      ex_run_1_warm new_engine_def ex_sha feed_sorted_eq ex_sort_digests supplied_upstream_def)


lemma ex_own_3_dag: "own_bytes ex_world ex_dag 3 = Inr ''joinbtrueknull''"
  unfolding ex_dag_def by (simp add: ex_own_3 ex_sorted_params supplied_upstream_def)

lemma ex_deps_run:
  "dep_hashes (priv_get_provenance_hash (Suc (Suc n)) ex_world ex_dag) new_engine
     (upstream_jobs ex_dag 3)
   = Some (Inr [''<sortdocker://imgdeps<echo hi>>'', ''<print(1)<echo hi>>''],
           new_engine(0 \<mapsto> ''<echo hi>'', Suc 0 \<mapsto> ''<sortdocker://imgdeps<echo hi>>'',
             2 \<mapsto> ''<print(1)<echo hi>>''))"
  unfolding ex_dag_def
  by (simp add: ex_up ex_run_1 ex_run_2 new_engine_def)

theorem upstream_step_witness:
  "dep_hashes (priv_get_provenance_hash (Suc (Suc 0)) ex_world ex_dag) new_engine
     (upstream_jobs ex_dag 3)
   = Some (Inr [''<sortdocker://imgdeps<echo hi>>'', ''<print(1)<echo hi>>''],
           new_engine(0 \<mapsto> ''<echo hi>'', Suc 0 \<mapsto> ''<sortdocker://imgdeps<echo hi>>'',
             2 \<mapsto> ''<print(1)<echo hi>>''))
   \<and> list_all2 (\<lambda>dep d. \<exists>ma mb. priv_get_provenance_hash (Suc (Suc 0)) ex_world ex_dag ma dep
                                  = Some (Inr d, mb))
        (upstream_jobs ex_dag 3) [''<sortdocker://imgdeps<echo hi>>'', ''<print(1)<echo hi>>'']
   \<and> mset [''<print(1)<echo hi>>'', ''<sortdocker://imgdeps<echo hi>>'']
       = mset [''<sortdocker://imgdeps<echo hi>>'', ''<print(1)<echo hi>>'']
   \<and> feed_sorted [''<print(1)<echo hi>>'', ''<sortdocker://imgdeps<echo hi>>''] ''x''
       = feed_sorted [''<sortdocker://imgdeps<echo hi>>'', ''<print(1)<echo hi>>''] ''x''
   \<and> new_engine 3 = None \<and> own_bytes ex_world ex_dag 3 = Inr ''joinbtrueknull''
   \<and> priv_get_provenance_hash (Suc (Suc (Suc 0))) ex_world ex_dag new_engine 3
       = Some (Inr ''<joinbtrueknull<print(1)<echo hi>><sortdocker://imgdeps<echo hi>>>'',
           new_engine(0 \<mapsto> ''<echo hi>'', Suc 0 \<mapsto> ''<sortdocker://imgdeps<echo hi>>'',
             2 \<mapsto> ''<print(1)<echo hi>>'',
             3 \<mapsto> ''<joinbtrueknull<print(1)<echo hi>><sortdocker://imgdeps<echo hi>>>''))"
proof -
  let ?d1 = "''<sortdocker://imgdeps<echo hi>>''"
  let ?d2 = "''<print(1)<echo hi>>''"
  let ?M = "new_engine(0 \<mapsto> ''<echo hi>'', Suc 0 \<mapsto> ?d1, 2 \<mapsto> ?d2)"
  note t = upstream_step [where G = ex_dag and job = 3 and W = ex_world and m = new_engine
      and rec = "priv_get_provenance_hash (Suc (Suc 0)) ex_world ex_dag"
      and fuel = "Suc (Suc 0)" and ds = "[?d1, ?d2]" and ds' = "[?d2, ?d1]" and m' = ?M
      and hb = "''joinbtrueknull''" and h = "''x''"]
  have r: "dep_hashes (priv_get_provenance_hash (Suc (Suc 0)) ex_world ex_dag) new_engine
     (upstream_jobs ex_dag 3) = Some (Inr [?d1, ?d2], ?M)"
    by (rule ex_deps_run)
  have ms: "mset [?d2, ?d1] = mset [?d1, ?d2]" by simp
  have n: "new_engine 3 = None" by (simp add: new_engine_def)
  from t r have a: "list_all2 (\<lambda>dep d. \<exists>ma mb. priv_get_provenance_hash (Suc (Suc 0)) ex_world ex_dag ma dep
                                  = Some (Inr d, mb)) (upstream_jobs ex_dag 3) [?d1, ?d2]"
    by blast
  from t ms have b: "feed_sorted [?d2, ?d1] ''x'' = feed_sorted [?d1, ?d2] ''x''"
    by blast
  from t n ex_own_3_dag r
  have "priv_get_provenance_hash (Suc (Suc (Suc 0))) ex_world ex_dag new_engine 3
      = Some (Inr (sha256 ex_world (''joinbtrueknull'' @ concat (map encode (sort [?d1, ?d2])))),
              ?M(3 \<mapsto> sha256 ex_world (''joinbtrueknull'' @ concat (map encode (sort [?d1, ?d2])))))"
    by blast
  then have c: "priv_get_provenance_hash (Suc (Suc (Suc 0))) ex_world ex_dag new_engine 3
       = Some (Inr ''<joinbtrueknull<print(1)<echo hi>><sortdocker://imgdeps<echo hi>>>'',
           ?M(3 \<mapsto> ''<joinbtrueknull<print(1)<echo hi>><sortdocker://imgdeps<echo hi>>>''))"
    by (simp add: ex_sort_digests ex_sha)
  from r a ms b n ex_own_3_dag c show ?thesis by blast
qed

subsection \<open>Iteration order\<close>

lemma hash_input_files_deps:
  assumes "set deps' = set deps"
  shows "hash_input_files mode fs deps' inputs h = hash_input_files mode fs deps inputs h"
proof -
  have s: "supplied_upstream deps' f = supplied_upstream deps f" for f
    by (simp add: supplied_upstream_iff assms)
  show ?thesis
    by (induction inputs arbitrary: h) (simp_all add: s split: sum.split)
qed

lemma own_bytes_order:
  assumes "same_up_to_order G G'"
  shows "own_bytes W G' job = own_bytes W G job"
proof -
  from assms have w: "workflow G' = workflow G"
    and j: "jobs G' job = (jobs G job)\<lparr>params := params (jobs G' job)\<rparr>"
    and p: "mset (params (jobs G' job)) = mset (params (jobs G job))"
    and d: "distinct (map fst (params (jobs G job)))"
    and ds: "mset (dependencies G' job) = mset (dependencies G job)"
    by (simp_all add: same_up_to_order_def)
  have f: "job_output (jobs G' job) = job_output (jobs G job)"
    "job_input (jobs G' job) = job_input (jobs G job)"
    "rule (jobs G' job) = rule (jobs G job)"
    by (subst j, simp)+
  have x: "hash_exec W (workflow G) (jobs G' job) = hash_exec W (workflow G) (jobs G job)"
    by (subst j) (simp add: hash_exec_def fun_eq_iff)
  have e: "hash_environment (workflow G) (jobs G' job) = hash_environment (workflow G) (jobs G job)"
    by (subst j) (simp add: hash_environment_def hash_container_def fun_eq_iff split: option.split)
  have hp: "hash_params (params (jobs G' job)) h = hash_params (params (jobs G job)) h" for h
    using d p by (rule hash_params_perm)
  have "set (dependencies G' job) = set (dependencies G job)"
    using ds by (rule mset_eq_setD)
  then have hi: "hash_input_files ''b'' (files W) (dependencies G' job) ins h
      = hash_input_files ''b'' (files W) (dependencies G job) ins h" for ins h
    by (rule hash_input_files_deps)
  show ?thesis
    unfolding own_bytes_def multi_output_message_def w f x e hp hi by (rule refl)
qed

lemma upstream_jobs_order:
  assumes "same_up_to_order G G'"
  shows "mset (upstream_jobs G' job) = mset (upstream_jobs G job)"
proof -
  from assms have "mset (dependencies G' job) = mset (dependencies G job)"
    by (simp add: same_up_to_order_def)
  then have "set (dependencies G' job) = set (dependencies G job)" by (rule mset_eq_setD)
  then have "set (upstream_jobs G' job) = set (upstream_jobs G job)"
    by (simp add: upstream_jobs_def)
  moreover have "distinct (upstream_jobs G' job)" "distinct (upstream_jobs G job)"
    by (simp_all add: upstream_jobs_def)
  ultimately show ?thesis by (simp add: set_eq_iff_mset_eq_distinct)
qed

lemma dep_digests_Inr:
  "dep_digests rec xs = Some (Inr ds) \<longleftrightarrow> map rec xs = map (\<lambda>d. Some (Inr d)) ds"
proof (induction xs arbitrary: ds)
  case Nil
  then show ?case by auto
next
  case (Cons x xs)
  show ?case
  proof (cases ds)
    case Nil
    then show ?thesis by (auto split: option.splits sum.splits)
  next
    case (Cons d ds0)
    then show ?thesis
      using Cons.IH [of ds0] by (auto split: option.splits sum.splits)
  qed
qed

lemma dep_digests_order:
  assumes agree: "\<And>x d. rec x = Some (Inr d) \<Longrightarrow> rec' x = Some (Inr d)"
    and perm: "mset xs' = mset xs"
    and ok: "dep_digests rec xs = Some (Inr ds)"
  shows "\<exists>ds'. dep_digests rec' xs' = Some (Inr ds') \<and> mset ds' = mset ds"
proof -
  define g where "g x = (case rec x of Some (Inr d) \<Rightarrow> d | _ \<Rightarrow> [])" for x
  from ok have m: "map rec xs = map (\<lambda>d. Some (Inr d)) ds" by (simp add: dep_digests_Inr)
  then have len: "length xs = length ds" by (metis length_map)
  have each: "rec x = Some (Inr (g x))" if "x \<in> set xs" for x
  proof -
    from that obtain i where i: "i < length xs" "xs ! i = x" by (auto simp: in_set_conv_nth)
    with m len have "rec x = Some (Inr (ds ! i))"
      by (metis nth_map)
    then show ?thesis by (simp add: g_def)
  qed
  have "ds = map g xs"
  proof (rule nth_equalityI)
    show "length ds = length (map g xs)" using len by simp
    fix i assume i: "i < length ds"
    with len m have "rec (xs ! i) = Some (Inr (ds ! i))" by (metis nth_map)
    then have "g (xs ! i) = ds ! i" by (simp add: g_def)
    with i len show "ds ! i = map g xs ! i" by simp
  qed
  have "set xs' = set xs" using perm by (rule mset_eq_setD)
  then have "rec' x = Some (Inr (g x))" if "x \<in> set xs'" for x
    using that each agree by blast
  then have "map rec' xs' = map (\<lambda>d. Some (Inr d)) (map g xs')" by simp
  then have r: "dep_digests rec' xs' = Some (Inr (map g xs'))" by (simp only: dep_digests_Inr)
  have "mset (map g xs') = mset (map g xs)" using perm by simp
  with r \<open>ds = map g xs\<close> show ?thesis by blast
qed

lemma digest_of_order:
  assumes "same_up_to_order G G'"
  shows "digest_of n W G job = Some (Inr d) \<Longrightarrow> digest_of n W G' job = Some (Inr d)"
proof (induction n arbitrary: job d)
  case 0
  then show ?case by simp
next
  case (Suc n)
  from Suc.prems obtain h ds where h: "own_bytes W G job = Inr h"
    and ds: "dep_digests (digest_of n W G) (upstream_jobs G job) = Some (Inr ds)"
    and d: "d = sha256 W (feed_sorted ds h)"
    by (auto split: sum.splits option.splits)
  have h': "own_bytes W G' job = Inr h" using own_bytes_order [OF assms] h by simp
  have "\<exists>ds'. dep_digests (digest_of n W G') (upstream_jobs G' job) = Some (Inr ds')
          \<and> mset ds' = mset ds"
    by (rule dep_digests_order [OF Suc.IH upstream_jobs_order [OF assms] ds])
  then obtain ds' where ds': "dep_digests (digest_of n W G') (upstream_jobs G' job) = Some (Inr ds')"
    and ms: "mset ds' = mset ds"
    by blast
  have "feed_sorted ds' h = feed_sorted ds h" using ms by (rule feed_sorted_perm)
  with h' ds' d show ?case by simp
qed


lemma priv_stores:
  "priv_get_provenance_hash n W G m job = Some (Inr d, m') \<Longrightarrow> m' job = Some d"
  by (cases n) (auto simp: priv_Suc split: option.splits sum.splits)

lemma public_of_priv:
  "priv_get_provenance_hash n W G m job = Some (Inr d, m')
     \<Longrightarrow> get_provenance_hash n W G m job
           = Some (Inr (sha256 W (encode d @ encode module_version)), m')"
  by (simp add: get_provenance_hash_def get_provenance_hash_with_def)

lemma priv_of_public:
  assumes "get_provenance_hash n W G m job = Some (Inr dv, m')"
  obtains d where "priv_get_provenance_hash n W G m job = Some (Inr d, m')"
    and "dv = sha256 W (encode d @ encode module_version)"
  using assms
  by (auto simp: get_provenance_hash_def get_provenance_hash_with_def
      split: option.splits sum.splits)

text \<open>
  C1: take a graph and the same graph with the parameter mapping and the dependency
  mapping of every job iterated in another order, the same files and outside world, and two
  engines in any state calls can have left them in (a new engine, the same engine again,
  an engine that has hashed other jobs). If \<^verbatim>\<open>get_provenance_hash(job)\<close> returns a digest on
  the first, it returns the same digest on the second whenever the recursion is allowed
  deep enough, and a repeated call on the first engine returns it again.
\<close>

theorem provenance_hash_deterministic:
  assumes "same_up_to_order G G'" and "reachable W G m" and "reachable W G' m'"
    and "get_provenance_hash fuel W G m job = Some (Inr d, m1)"
  shows "(\<exists>N. \<forall>k\<ge>N. \<exists>m2. get_provenance_hash k W G' m' job = Some (Inr d, m2))
       \<and> get_provenance_hash (Suc k) W G m1 job = Some (Inr d, m1)"
proof
  from assms(4) obtain di where p: "priv_get_provenance_hash fuel W G m job = Some (Inr di, m1)"
    and d: "d = sha256 W (encode di @ encode module_version)"
    by (rule priv_of_public)
  from assms(2) have "consistent W G m" by (rule reachable_consistent)
  from memo_sound [OF this p] obtain N where N: "digest_of N W G job = Some (Inr di)"
    by blast
  have N': "digest_of N W G' job = Some (Inr di)"
    using assms(1) N by (rule digest_of_order)
  from assms(3) have c': "consistent W G' m'" by (rule reachable_consistent)
  have "\<exists>m2. get_provenance_hash k W G' m' job = Some (Inr d, m2)" if "N \<le> k" for k
  proof -
    from N' that have "digest_of k W G' job = Some (Inr di)" by (rule digest_of_mono)
    from memo_refines [OF c' this]
    obtain m2 where "priv_get_provenance_hash k W G' m' job = Some (Inr di, m2)" by blast
    then show ?thesis unfolding d by (blast dest: public_of_priv)
  qed
  then show "\<exists>N. \<forall>k\<ge>N. \<exists>m2. get_provenance_hash k W G' m' job = Some (Inr d, m2)"
    by blast
  from p have "m1 job = Some di" by (rule priv_stores)
  then have "priv_get_provenance_hash (Suc k) W G m1 job = Some (Inr di, m1)"
    by (rule priv_hit)
  then show "get_provenance_hash (Suc k) W G m1 job = Some (Inr d, m1)"
    unfolding d by (rule public_of_priv)
qed

lemma ex_same_up_to_order: "same_up_to_order ex_dag ex_dag_reordered"
  by (simp add: same_up_to_order_def ex_dag_def ex_dag_reordered_def ex_jobs_def ex_deps_def
      shell_job_def ex_params_def)


theorem provenance_hash_deterministic_witness:
  "same_up_to_order ex_dag ex_dag_reordered
   \<and> reachable ex_world ex_dag new_engine \<and> reachable ex_world ex_dag_reordered new_engine
   \<and> get_provenance_hash 3 ex_world ex_dag new_engine 3
       = Some (Inr ''<<joinbtrueknull<print(1)<echo hi>><sortdocker://imgdeps<echo hi>>>0.1>'',
           new_engine(0 \<mapsto> ''<echo hi>'', Suc 0 \<mapsto> ''<sortdocker://imgdeps<echo hi>>'',
             2 \<mapsto> ''<print(1)<echo hi>>'',
             3 \<mapsto> ''<joinbtrueknull<print(1)<echo hi>><sortdocker://imgdeps<echo hi>>>''))
   \<and> (\<exists>N. \<forall>k\<ge>N. \<exists>m2. get_provenance_hash k ex_world ex_dag_reordered new_engine 3
       = Some (Inr ''<<joinbtrueknull<print(1)<echo hi>><sortdocker://imgdeps<echo hi>>>0.1>'', m2))
   \<and> get_provenance_hash 1 ex_world ex_dag
         (new_engine(0 \<mapsto> ''<echo hi>'', Suc 0 \<mapsto> ''<sortdocker://imgdeps<echo hi>>'',
             2 \<mapsto> ''<print(1)<echo hi>>'',
             3 \<mapsto> ''<joinbtrueknull<print(1)<echo hi>><sortdocker://imgdeps<echo hi>>>'')) 3
       = Some (Inr ''<<joinbtrueknull<print(1)<echo hi>><sortdocker://imgdeps<echo hi>>>0.1>'',
           new_engine(0 \<mapsto> ''<echo hi>'', Suc 0 \<mapsto> ''<sortdocker://imgdeps<echo hi>>'',
             2 \<mapsto> ''<print(1)<echo hi>>'',
             3 \<mapsto> ''<joinbtrueknull<print(1)<echo hi>><sortdocker://imgdeps<echo hi>>>''))"
proof -
  let ?D = "''<<joinbtrueknull<print(1)<echo hi>><sortdocker://imgdeps<echo hi>>>0.1>''"
  let ?M = "new_engine(0 \<mapsto> ''<echo hi>'', Suc 0 \<mapsto> ''<sortdocker://imgdeps<echo hi>>'',
             2 \<mapsto> ''<print(1)<echo hi>>'',
             3 \<mapsto> ''<joinbtrueknull<print(1)<echo hi>><sortdocker://imgdeps<echo hi>>>'')"
  have g: "get_provenance_hash 3 ex_world ex_dag new_engine 3 = Some (Inr ?D, ?M)"
    using public_of_priv [OF ex_run_3 [of 0]]
    by (simp add: eval_nat_numeral ex_sha module_version_def)
  note t = provenance_hash_deterministic [OF ex_same_up_to_order reachable.fresh reachable.fresh g,
      of 0]
  from t have a: "\<exists>N. \<forall>k\<ge>N. \<exists>m2. get_provenance_hash k ex_world ex_dag_reordered new_engine 3
       = Some (Inr ?D, m2)"
    by (rule conjunct1)
  from t have b: "get_provenance_hash 1 ex_world ex_dag ?M 3 = Some (Inr ?D, ?M)"
    by simp
  from ex_same_up_to_order reachable.fresh [of ex_world ex_dag]
    reachable.fresh [of ex_world ex_dag_reordered] g a b
  show ?thesis by blast
qed

subsection \<open>What a call writes\<close>














end
